theory Spec2Isabelle
  imports Main "HOL-Library.AList"
begin

section \<open>Data model of the build analyzer\<close>

text \<open>
  The embedding follows \<^verbatim>\<open>BuildAnalyzer\<close> and \<^verbatim>\<open>StreamLoader\<close> of the analyzer
  module. A \<^verbatim>\<open>ResolvedUrl\<close> and a \<^verbatim>\<open>LocalFsPath\<close> are strings. A vinyl \<^verbatim>\<open>File\<close> is
  reduced to the two fields the analyzer reads.
\<close>

type_synonym ResolvedUrl = string
type_synonym LocalFsPath = string

record File =
  path :: LocalFsPath
  contents :: string

text \<open>
  \<^verbatim>\<open>Severity\<close> is a numeric enum of the analyzer library (\<^verbatim>\<open>ERROR\<close>, \<^verbatim>\<open>WARNING\<close>,
  \<^verbatim>\<open>INFO\<close> in this order), so a severity is a number at run time. A \<^verbatim>\<open>Warning\<close> is an
  object: two warnings with equal fields are still two members of a \<^verbatim>\<open>Set\<close>, which the
  field \<open>ident\<close> stands for.
\<close>

type_synonym Severity = nat

definition ERROR :: Severity where "ERROR = 0"
definition WARNING :: Severity where "WARNING = 1"
definition INFO :: Severity where "INFO = 2"

record Warning =
  code :: string
  severity :: Severity
  ident :: nat

record DocumentDeps =
  imports' :: "ResolvedUrl list"
  scripts :: "ResolvedUrl list"
  styles :: "ResolvedUrl list"

text \<open>
  The errors the module constructs, one constructor for each message:
  \<^verbatim>\<open>Not found: ${url}\<close>, \<^verbatim>\<open>Not found: "${url}"\<close> (with quotes, in \<^verbatim>\<open>sourceUrlAnalyzed\<close>),
  \<^verbatim>\<open>${n} error(s) occurred during build.\<close>,
  \<^verbatim>\<open>Dependency analysis incorrectly called for ${url}\<close>,
  \<^verbatim>\<open>Unable to get document ${url}: ${message}\<close>, \<^verbatim>\<open>Unable to load ${url}.\<close>,
  the error of \<^verbatim>\<open>urlFromPath\<close> for a path outside the root, the error of a failing
  \<^verbatim>\<open>pathFromResolvedUrl\<close>, and the \<^verbatim>\<open>TypeError\<close> of calling a method of \<^verbatim>\<open>undefined\<close>.
\<close>

datatype error =
    NotFound ResolvedUrl
  | NotFoundQuoted ResolvedUrl
  | ErrorsOccurred nat
  | IncorrectlyCalled ResolvedUrl
  | UnableToGetDocument ResolvedUrl string
  | UnableToLoad
  | NotInRoot LocalFsPath
  | BadUrl ResolvedUrl
  | TypeError

text \<open>The state of a promise: the value of \<^verbatim>\<open>load\<close> is a promise of the file's text.\<close>

datatype outcome = Pending | Resolved string | Rejected error

text \<open>A JavaScript number as far as the severity tally needs it.\<close>

datatype jsnum = Num nat | NaN

text \<open>
  What the module takes from its configuration and from its collaborators:
  \<^item> \<open>fileUrl p\<close> is \<^verbatim>\<open>analyzer.resolveUrl(urlFromPath(config.root, p))\<close>; \<^verbatim>\<open>urlFromPath\<close>
    throws for a path outside the root;
  \<^item> \<open>normalize\<close> is \<^verbatim>\<open>path.normalize\<close>;
  \<^item> \<open>pathFromResolvedUrl\<close> is the function of that name, which may throw;
  \<^item> \<open>isSource\<close> and \<open>isFragment\<close> are the predicates of the project configuration;
  \<^item> \<open>protocol u\<close> is \<^verbatim>\<open>parse(u).protocol\<close>;
  \<^item> \<open>resolveUrl\<close> is \<^verbatim>\<open>analyzer.resolveUrl\<close> on the url of an import feature, \<open>None\<close>
    for \<^verbatim>\<open>undefined\<close>;
  \<^item> \<open>shouldIgnore\<close> is the warning filter.
\<close>

record Env =
  fileUrl :: "LocalFsPath \<Rightarrow> error + ResolvedUrl"
  normalize :: "LocalFsPath \<Rightarrow> LocalFsPath"
  pathFromResolvedUrl :: "ResolvedUrl \<Rightarrow> error + LocalFsPath"
  isSource :: "LocalFsPath \<Rightarrow> bool"
  isFragment :: "LocalFsPath \<Rightarrow> bool"
  protocol :: "ResolvedUrl \<Rightarrow> string option"
  resolveUrl :: "string \<Rightarrow> ResolvedUrl option"
  shouldIgnore :: "Warning \<Rightarrow> bool"

text \<open>
  The mutable state of one \<^verbatim>\<open>BuildAnalyzer\<close> with its \<^verbatim>\<open>StreamLoader\<close>.
  \<^item> \<open>files\<close>, \<open>depsToFragments\<close>, \<open>fragmentToDeps\<close>, \<open>fragmentToFullDeps\<close> are the
    \<^verbatim>\<open>Map\<close>s of these names;
  \<^item> \<open>warnings\<close> is the \<^verbatim>\<open>Set\<close> of warnings in insertion order;
  \<^item> \<open>deferredFiles\<close> is the loader's \<^verbatim>\<open>Map\<close> in insertion order; the callback pair of
    an entry is named by the number of the promise it settles;
  \<^item> \<open>promises\<close> gives the state of every promise \<^verbatim>\<open>load\<close> has returned, and
    \<open>nextPromise\<close> numbers the next one;
  \<^item> \<open>dependenciesStream\<close> lists the paths pushed into \<^verbatim>\<open>_dependenciesStream\<close>, and
    \<open>dependenciesStreamEnded\<close> says whether \<^verbatim>\<open>end()\<close> was called on it;
  \<^item> \<open>sourcesErrors\<close> and \<open>dependenciesErrors\<close> list the errors emitted on
    \<^verbatim>\<open>_sourcesProcessingStream\<close> and \<^verbatim>\<open>_dependenciesProcessingStream\<close>;
  \<^item> \<open>analysisResolved\<close> says whether \<^verbatim>\<open>_resolveDependencyAnalysis\<close> was called, that
    is whether the promise \<^verbatim>\<open>analyzeDependencies\<close> is resolved.
\<close>

record State =
  sourceFilesLoaded :: bool
  files :: "ResolvedUrl \<rightharpoonup> File"
  warnings :: "Warning list"
  allFragmentsToAnalyze :: "ResolvedUrl set"
  depsToFragments :: "ResolvedUrl \<rightharpoonup> ResolvedUrl list"
  fragmentToDeps :: "ResolvedUrl \<rightharpoonup> ResolvedUrl list"
  fragmentToFullDeps :: "ResolvedUrl \<rightharpoonup> DocumentDeps"
  deferredFiles :: "(ResolvedUrl \<times> nat) list"
  promises :: "nat \<Rightarrow> outcome"
  nextPromise :: nat
  dependenciesStream :: "LocalFsPath list"
  dependenciesStreamEnded :: bool
  sourcesErrors :: "error list"
  dependenciesErrors :: "error list"
  analysisResolved :: bool

text \<open>
  A call either returns, or throws an error in the state it has reached by then.
\<close>

type_synonym result = "(error \<times> State) + State"

definition state_of :: "result \<Rightarrow> State" where
  "state_of r = (case r of Inl (e, s) \<Rightarrow> s | Inr s \<Rightarrow> s)"

section \<open>StreamLoader\<close>

definition hasDeferredFile :: "State \<Rightarrow> ResolvedUrl \<Rightarrow> bool" where
  "hasDeferredFile st u = (map_of (deferredFiles st) u \<noteq> None)"

definition hasDeferredFiles :: "State \<Rightarrow> bool" where
  "hasDeferredFiles st = (0 < length (deferredFiles st))"

text \<open>Calling \<^verbatim>\<open>resolve\<close> or \<^verbatim>\<open>reject\<close> of a promise that is settled has no effect.\<close>

definition settle :: "State \<Rightarrow> nat \<Rightarrow> outcome \<Rightarrow> State" where
  "settle st p oc =
     (if promises st p = Pending then st\<lparr>promises := (promises st)(p := oc)\<rparr> else st)"

definition resolveDeferredFile :: "State \<Rightarrow> ResolvedUrl \<Rightarrow> File \<Rightarrow> result" where
  "resolveDeferredFile st u file =
     (case map_of (deferredFiles st) u of
        None \<Rightarrow> Inl (TypeError, st)
      | Some p \<Rightarrow>
          Inr ((settle st p (Resolved (contents file)))
                 \<lparr>deferredFiles := AList.delete u (deferredFiles st)\<rparr>))"

definition rejectDeferredFile :: "State \<Rightarrow> ResolvedUrl \<Rightarrow> error \<Rightarrow> result" where
  "rejectDeferredFile st u err =
     (case map_of (deferredFiles st) u of
        None \<Rightarrow> Inl (TypeError, st)
      | Some p \<Rightarrow>
          Inr ((settle st p (Rejected err))
                 \<lparr>deferredFiles := AList.delete u (deferredFiles st)\<rparr>))"

definition canLoad :: "Env \<Rightarrow> ResolvedUrl \<Rightarrow> bool" where
  "canLoad env u = (if protocol env u \<noteq> Some ''file:'' then False else True)"

section \<open>BuildAnalyzer\<close>

definition addFile :: "Env \<Rightarrow> State \<Rightarrow> File \<Rightarrow> result" where
  "addFile env st file =
     (let filepath = normalize env (path file) in
      case fileUrl env filepath of
        Inl e \<Rightarrow> Inl (e, st)
      | Inr u \<Rightarrow> Inr (st\<lparr>files := (files st)(u \<mapsto> file)\<rparr>))"

definition resolveFile :: "Env \<Rightarrow> State \<Rightarrow> File \<Rightarrow> result" where
  "resolveFile env st file =
     (case fileUrl env (path file) of
        Inl e \<Rightarrow> Inl (e, st)
      | Inr u \<Rightarrow>
          (case addFile env st file of
             Inl x \<Rightarrow> Inl x
           | Inr st1 \<Rightarrow>
               if hasDeferredFile st1 u then resolveDeferredFile st1 u file else Inr st1))"

text \<open>
  \<^verbatim>\<open>sourceUrlAnalyzed\<close> changes nothing: it throws when the sources stream has completed.
\<close>

definition sourceUrlAnalyzed :: "State \<Rightarrow> ResolvedUrl \<Rightarrow> result" where
  "sourceUrlAnalyzed st u =
     (if sourceFilesLoaded st then Inl (NotFoundQuoted u, st) else Inr st)"

definition dependencyUrlAnalyzed :: "Env \<Rightarrow> State \<Rightarrow> ResolvedUrl \<Rightarrow> result" where
  "dependencyUrlAnalyzed env st u =
     (case files st u of
        Some f \<Rightarrow> Inr st
      | None \<Rightarrow>
          (case pathFromResolvedUrl env u of
             Inl e \<Rightarrow> Inl (e, st)
           | Inr fp \<Rightarrow> Inr (st\<lparr>dependenciesStream := dependenciesStream st @ [fp]\<rparr>)))"

text \<open>
  \<^verbatim>\<open>load\<close> is an \<^verbatim>\<open>async\<close> function: it never throws, it returns a promise, here the
  state and the number of the promise. The promise of the third case is created pending,
  its callbacks are stored under the url, replacing the entry the url may have (\<^verbatim>\<open>Map.set\<close>),
  and what the classification throws rejects it through \<^verbatim>\<open>rejectDeferredFile\<close>; an error
  thrown by that call itself rejects the promise, as for every promise executor.
\<close>

definition newPromise :: "State \<Rightarrow> outcome \<Rightarrow> State" where
  "newPromise st oc =
     st\<lparr>promises := (promises st)(nextPromise st := oc), nextPromise := Suc (nextPromise st)\<rparr>"

definition load :: "Env \<Rightarrow> State \<Rightarrow> ResolvedUrl \<Rightarrow> State \<times> nat" where
  "load env st u =
     (let p = nextPromise st in
      if \<not> canLoad env u then (newPromise st (Rejected UnableToLoad), p)
      else case files st u of
        Some file \<Rightarrow> (newPromise st (Resolved (contents file)), p)
      | None \<Rightarrow>
          (let st1 = (newPromise st Pending)
                       \<lparr>deferredFiles := AList.update u p (deferredFiles st)\<rparr>;
               r = (case pathFromResolvedUrl env u of
                      Inl e \<Rightarrow> Inl (e, st1)
                    | Inr filePath \<Rightarrow>
                        if isSource env filePath then sourceUrlAnalyzed st1 u
                        else dependencyUrlAnalyzed env st1 u)
           in case r of
                Inr st2 \<Rightarrow> (st2, p)
              | Inl (err, st2) \<Rightarrow>
                  (case rejectDeferredFile st2 u err of
                     Inr st3 \<Rightarrow> (st3, p)
                   | Inl (err', st3) \<Rightarrow> (settle st3 p (Rejected err'), p))))"

text \<open>
  \<^verbatim>\<open>onSourcesStreamComplete\<close> walks the keys of \<^verbatim>\<open>deferredFiles\<close> and rejects the
  entries of source files. The walk deletes only the key it is at, so the keys it visits
  are the keys present at the start.
\<close>

fun rejectMissingSources :: "Env \<Rightarrow> State \<Rightarrow> ResolvedUrl list \<Rightarrow> result" where
  "rejectMissingSources env st [] = Inr st"
| "rejectMissingSources env st (u # us) =
     (case pathFromResolvedUrl env u of
        Inl e \<Rightarrow> Inl (e, st)
      | Inr filePath \<Rightarrow>
          if isSource env filePath then
            (case rejectDeferredFile st u (NotFound u) of
               Inl x \<Rightarrow> Inl x
             | Inr st' \<Rightarrow> rejectMissingSources env st' us)
          else rejectMissingSources env st us)"

definition onSourcesStreamComplete :: "Env \<Rightarrow> State \<Rightarrow> result" where
  "onSourcesStreamComplete env st =
     (case rejectMissingSources env st (map fst (deferredFiles st)) of
        Inl x \<Rightarrow> Inl x
      | Inr st' \<Rightarrow> Inr (st'\<lparr>sourceFilesLoaded := True\<rparr>))"

text \<open>
  \<^verbatim>\<open>emitAnalysisError\<close> emits the error on both processing streams; the streams are taken
  to have a listener for it, as a stream that is read has.
\<close>

definition emitAnalysisError :: "State \<Rightarrow> error \<Rightarrow> State" where
  "emitAnalysisError st err =
     st\<lparr>sourcesErrors := sourcesErrors st @ [err],
        dependenciesErrors := dependenciesErrors st @ [err]\<rparr>"

text \<open>
  \<^verbatim>\<open>countWarningsByType\<close>: the tally starts with the three severities at zero; a lookup
  of a key the map lacks is \<^verbatim>\<open>undefined\<close>, and \<^verbatim>\<open>undefined + 1\<close> is \<^verbatim>\<open>NaN\<close>.
\<close>

definition plus1 :: "jsnum option \<Rightarrow> jsnum" where
  "plus1 x = (case x of Some (Num n) \<Rightarrow> Num (n + 1) | Some NaN \<Rightarrow> NaN | None \<Rightarrow> NaN)"

definition countStep :: "(Severity \<rightharpoonup> jsnum) \<Rightarrow> Warning \<Rightarrow> (Severity \<rightharpoonup> jsnum)" where
  "countStep m w = m(severity w \<mapsto> plus1 (m (severity w)))"

definition countWarningsByType :: "Warning list \<Rightarrow> (Severity \<rightharpoonup> jsnum)" where
  "countWarningsByType ws =
     foldl countStep (((Map.empty(INFO \<mapsto> Num 0))(WARNING \<mapsto> Num 0))(ERROR \<mapsto> Num 0)) ws"

text \<open>The comparison \<^verbatim>\<open>errorWarningCount > 0\<close>, false for \<^verbatim>\<open>undefined\<close> and \<^verbatim>\<open>NaN\<close>.\<close>

definition positive :: "jsnum option \<Rightarrow> bool" where
  "positive x = (case x of Some (Num n) \<Rightarrow> 0 < n | Some NaN \<Rightarrow> False | None \<Rightarrow> False)"

definition count_of :: "jsnum option \<Rightarrow> nat" where
  "count_of x = (case x of Some (Num n) \<Rightarrow> n | Some NaN \<Rightarrow> 0 | None \<Rightarrow> 0)"

text \<open>
  \<^verbatim>\<open>_done\<close>. Printing the warnings changes nothing. The loop over the keys of
  \<^verbatim>\<open>deferredFiles\<close> returns inside its body, so it handles the first key only.
  \<open>count_of\<close> is read only where \<open>positive\<close> holds, where the count is a number.
\<close>

definition BuildAnalyzer_done :: "State \<Rightarrow> result" where
  "BuildAnalyzer_done st =
     (let allWarningCount = countWarningsByType (warnings st);
          errorWarningCount = allWarningCount ERROR
      in if positive errorWarningCount then
           Inr (emitAnalysisError st (ErrorsOccurred (count_of errorWarningCount)))
         else case deferredFiles st of
           (u, p) # rest \<Rightarrow> rejectDeferredFile st u (NotFound u)
         | [] \<Rightarrow> Inr (st\<lparr>dependenciesStreamEnded := True, analysisResolved := True\<rparr>))"

text \<open>
  \<^verbatim>\<open>_getDependencies\<close>, given what the analyzer answers for the url: no document, with the
  error of the result if it has one and the message of that error if it has one, or a
  document with its warnings (\<^verbatim>\<open>getWarnings({imported: true})\<close>) and its import features,
  each a url and a type. Reading the message of an error that is \<^verbatim>\<open>undefined\<close> is a
  \<^verbatim>\<open>TypeError\<close>.
  \<open>set_add\<close> is \<^verbatim>\<open>Set.add\<close> on a set kept in insertion order.
\<close>

datatype Analysis =
    Unsuccessful "string option option"
  | Successful "Warning list" "(string \<times> string) list"

definition set_add :: "'a list \<Rightarrow> 'a \<Rightarrow> 'a list" where
  "set_add xs x = (if x \<in> set xs then xs else xs @ [x])"

fun classify ::
  "Env \<Rightarrow> (string \<times> string) list \<Rightarrow> DocumentDeps \<Rightarrow> DocumentDeps" where
  "classify env [] d = d"
| "classify env ((importUrl, ty) # fs) d =
     classify env fs
       (if (case resolveUrl env importUrl of None \<Rightarrow> True | Some r \<Rightarrow> r = []) then d
        else if ty = ''html-script'' then d\<lparr>scripts := set_add (scripts d) importUrl\<rparr>
        else if ty = ''html-style'' then d\<lparr>styles := set_add (styles d) importUrl\<rparr>
        else if ty = ''html-import'' then d\<lparr>imports' := set_add (imports' d) importUrl\<rparr>
        else d)"

definition BuildAnalyzer_getDependencies ::
  "Env \<Rightarrow> State \<Rightarrow> ResolvedUrl \<Rightarrow> Analysis \<Rightarrow> (error \<times> State) + (State \<times> DocumentDeps)" where
  "BuildAnalyzer_getDependencies env st u an =
     (case an of
        Unsuccessful err \<Rightarrow>
          (case err of
             None \<Rightarrow> Inl (TypeError, st)
           | Some msg \<Rightarrow>
               Inl (UnableToGetDocument u
                      (case msg of None \<Rightarrow> ''unknown''
                       | Some m \<Rightarrow> if m = [] then ''unknown'' else m), st))
      | Successful ws fs \<Rightarrow>
          Inr (st\<lparr>warnings :=
                    foldl set_add (warnings st) (filter (\<lambda>w. \<not> shouldIgnore env w) ws)\<rparr>,
               classify env fs \<lparr>imports' = [], scripts = [], styles = []\<rparr>))"

text \<open>
  \<^verbatim>\<open>_addDependencies\<close>. In the callback of \<^verbatim>\<open>forEach\<close> the parameter is named \<^verbatim>\<open>url\<close>
  too, so inside it \<^verbatim>\<open>url\<close> is the import, which is both the key and the value pushed.
\<close>

definition addEntrypoint ::
  "(ResolvedUrl \<rightharpoonup> ResolvedUrl list) \<Rightarrow> ResolvedUrl \<Rightarrow> (ResolvedUrl \<rightharpoonup> ResolvedUrl list)" where
  "addEntrypoint m u =
     (case m u of
        Some entrypointList \<Rightarrow> m(u \<mapsto> entrypointList @ [u])
      | None \<Rightarrow> m(u \<mapsto> [u]))"

definition BuildAnalyzer_addDependencies ::
  "State \<Rightarrow> ResolvedUrl \<Rightarrow> DocumentDeps \<Rightarrow> result" where
  "BuildAnalyzer_addDependencies st u deps =
     (if u \<notin> allFragmentsToAnalyze st then Inl (IncorrectlyCalled u, st)
      else Inr (st\<lparr>fragmentToFullDeps := (fragmentToFullDeps st)(u \<mapsto> deps),
                   fragmentToDeps := (fragmentToDeps st)(u \<mapsto> imports' deps),
                   depsToFragments := foldl addEntrypoint (depsToFragments st) (imports' deps)\<rparr>))"

text \<open>
  The index update of \<^verbatim>\<open>analyzeFile\<close>: what follows the \<^verbatim>\<open>await\<close> of the dependencies.
\<close>

definition updateIndex :: "State \<Rightarrow> ResolvedUrl \<Rightarrow> DocumentDeps \<Rightarrow> result" where
  "updateIndex st u deps =
     (case BuildAnalyzer_addDependencies st u deps of
        Inl x \<Rightarrow> Inl x
      | Inr st2 \<Rightarrow>
          (let st3 = st2\<lparr>allFragmentsToAnalyze := allFragmentsToAnalyze st2 - {u}\<rparr>
           in if allFragmentsToAnalyze st3 = {} then BuildAnalyzer_done st3 else Inr st3))"

definition analyzeFile :: "Env \<Rightarrow> State \<Rightarrow> File \<Rightarrow> Analysis \<Rightarrow> result" where
  "analyzeFile env st file an =
     (if isFragment env (path file) then
        (case fileUrl env (path file) of
           Inl e \<Rightarrow> Inl (e, st)
         | Inr u \<Rightarrow>
             (case BuildAnalyzer_getDependencies env st u an of
                Inl x \<Rightarrow> Inl x
              | Inr (st1, deps) \<Rightarrow> updateIndex st1 u deps))
      else Inr st)"

section \<open>Runs\<close>

text \<open>
  What can happen to an analyzer: a file comes through a resolve stage, a file comes
  through the analyze stage and the analyzer answers, the sources stream ends, the analyzer
  asks the loader for a url, a file is added through the side channel. A run takes the
  events in order; after a call that throws, it goes on from the state the call had reached.
\<close>

datatype Event =
    ResolveFile File
  | AnalyzeFile File Analysis
  | SourcesStreamComplete
  | Load ResolvedUrl
  | AddFile File

fun step :: "Env \<Rightarrow> State \<Rightarrow> Event \<Rightarrow> State" where
  "step env st (ResolveFile f) = state_of (resolveFile env st f)"
| "step env st (AnalyzeFile f an) = state_of (analyzeFile env st f an)"
| "step env st SourcesStreamComplete = state_of (onSourcesStreamComplete env st)"
| "step env st (Load u) = fst (load env st u)"
| "step env st (AddFile f) = state_of (addFile env st f)"

fun run :: "Env \<Rightarrow> State \<Rightarrow> Event list \<Rightarrow> State" where
  "run env st [] = st"
| "run env st (e # es) = run env (step env st e) es"

section \<open>The initial state and an example project\<close>

text \<open>
  The state after the constructor: the field initialisers of the two classes, and the
  fragments of the configuration as the set still to analyze.
\<close>

definition initial :: "ResolvedUrl set \<Rightarrow> State" where
  "initial fragments =
     \<lparr>sourceFilesLoaded = False, files = Map.empty, warnings = [],
      allFragmentsToAnalyze = fragments,
      depsToFragments = Map.empty, fragmentToDeps = Map.empty, fragmentToFullDeps = Map.empty,
      deferredFiles = [], promises = (\<lambda>p. Pending), nextPromise = 0,
      dependenciesStream = [], dependenciesStreamEnded = False,
      sourcesErrors = [], dependenciesErrors = [], analysisResolved = False\<rparr>"

text \<open>
  A project with root \<^verbatim>\<open>/proj\<close>, sources \<^verbatim>\<open>index.html\<close> and \<^verbatim>\<open>shared.html\<close>, and the
  fragment \<^verbatim>\<open>index.html\<close>; the warning filter drops what is less severe than a warning.
  The concrete inputs of the examples below are taken from it.
\<close>

definition exampleEnv :: Env where
  "exampleEnv =
     \<lparr>fileUrl = (\<lambda>p. if take 6 p = ''/proj/'' then Inr (''file://'' @ p) else Inl (NotInRoot p)),
      normalize = (\<lambda>p. p),
      pathFromResolvedUrl =
        (\<lambda>u. if take 7 u = ''file://'' then Inr (drop 7 u) else Inl (BadUrl u)),
      isSource = (\<lambda>p. p = ''/proj/index.html'' \<or> p = ''/proj/shared.html''),
      isFragment = (\<lambda>p. p = ''/proj/index.html''),
      protocol = (\<lambda>u. if take 5 u = ''file:'' then Some ''file:'' else None),
      resolveUrl = (\<lambda>u. Some u),
      shouldIgnore = (\<lambda>w. WARNING < severity w)\<rparr>"

definition indexUrl :: ResolvedUrl where "indexUrl = ''file:///proj/index.html''"
definition sharedUrl :: ResolvedUrl where "sharedUrl = ''file:///proj/shared.html''"
definition styleUrl :: ResolvedUrl where "styleUrl = ''file:///proj/style.css''"
definition scriptUrl :: ResolvedUrl where "scriptUrl = ''file:///proj/app.js''"

definition indexFile :: File where
  "indexFile = \<lparr>path = ''/proj/index.html'', contents = ''<link rel=import href=shared.html>''\<rparr>"
definition sharedFileOld :: File where
  "sharedFileOld = \<lparr>path = ''/proj/shared.html'', contents = ''old''\<rparr>"
definition sharedFileNew :: File where
  "sharedFileNew = \<lparr>path = ''/proj/shared.html'', contents = ''new''\<rparr>"

definition exampleWarnings :: "Warning list" where
  "exampleWarnings =
     [\<lparr>code = ''could-not-load'', severity = ERROR, ident = 0\<rparr>,
      \<lparr>code = ''unknown-tag'', severity = WARNING, ident = 1\<rparr>]"

definition stateWithError :: State where
  "stateWithError = (initial {indexUrl})\<lparr>warnings := exampleWarnings\<rparr>"

definition noDeps :: DocumentDeps where
  "noDeps = \<lparr>imports' = [], scripts = [], styles = []\<rparr>"

section \<open>The canonical resolver\<close>

text \<open>
  The module that defines \<^verbatim>\<open>urlFromPath\<close> and its inverse is not part of the sources
  modelled above, which only call it; its tests are. The definitions of this section are
  written from the specification of the canonical resolver (\<^verbatim>\<open>resolve\<close> and \<^verbatim>\<open>toPath\<close>)
  and agree with the tests: identifiers are relative to the root, separators become
  \<^verbatim>\<open>/\<close>, a space becomes \<^verbatim>\<open>%20\<close>, and \<^verbatim>\<open>/the/pathologist\<close> is not inside
  \<^verbatim>\<open>/the/path\<close>. Strings are byte strings.
\<close>

text \<open>Modelled from the spec: the platforms whose path separators differ.\<close>

datatype Platform = Posix | Windows

text \<open>Modelled from the spec: the platform's path separator (\<^verbatim>\<open>path.sep\<close>), a backslash on Windows.\<close>

definition pathSeparator :: "Platform \<Rightarrow> char" where
  "pathSeparator pf = (case pf of Posix \<Rightarrow> CHR ''/'' | Windows \<Rightarrow> CHR 0x5C)"

text \<open>
  Modelled from the spec: the normalisation of platform path separators, which the missing
  \<^verbatim>\<open>urlFromPath\<close> applies to the root and to the path.
\<close>

definition posixifyPath :: "Platform \<Rightarrow> string \<Rightarrow> string" where
  "posixifyPath pf s = map (\<lambda>c. if c = pathSeparator pf then CHR ''/'' else c) s"

text \<open>
  Modelled from the spec: the way back to the platform's separators, which the missing
  inverse applies to the decoded identifier.
\<close>

definition platformifyPath :: "Platform \<Rightarrow> string \<Rightarrow> string" where
  "platformifyPath pf s = map (\<lambda>c. if c = CHR ''/'' then pathSeparator pf else c) s"

text \<open>Modelled from the spec: the segments of a path with \<^verbatim>\<open>/\<close> as separator.\<close>

fun splitSlash :: "string \<Rightarrow> string list" where
  "splitSlash [] = [[]]"
| "splitSlash (c # cs) =
     (if c = CHR ''/'' then [] # splitSlash cs
      else (case splitSlash cs of seg # segs \<Rightarrow> (c # seg) # segs | [] \<Rightarrow> [[c]]))"

text \<open>Modelled from the spec: the path of a list of segments.\<close>

fun joinSlash :: "string list \<Rightarrow> string" where
  "joinSlash [] = []"
| "joinSlash [s] = s"
| "joinSlash (s # t # ss) = s @ CHR ''/'' # joinSlash (t # ss)"

text \<open>
  Modelled from the spec: a letter, as the name of a Windows drive is one.
\<close>

definition isLetter :: "char \<Rightarrow> bool" where
  "isLetter c = (c \<in> set ''ABCDEFGHIJKLMNOPQRSTUVWXYZabcdefghijklmnopqrstuvwxyz'')"

text \<open>
  Modelled from the spec: the drive of a path on Windows, a letter and a colon at its
  start; a path has no drive elsewhere.
\<close>

definition driveOf :: "Platform \<Rightarrow> string \<Rightarrow> string" where
  "driveOf pf s =
     (case pf of
        Posix \<Rightarrow> []
      | Windows \<Rightarrow>
          (case s of
             d # c # cs \<Rightarrow> if isLetter d \<and> c = CHR '':'' then [d, c] else []
           | _ \<Rightarrow> []))"

text \<open>
  Modelled from the spec: a Windows path that starts with two separators names a network
  share or a device, not a file below a directory of a drive; the resolver refuses it.
\<close>

definition isUNC :: "Platform \<Rightarrow> string \<Rightarrow> bool" where
  "isUNC pf s = (case pf of Posix \<Rightarrow> False | Windows \<Rightarrow> take 2 s = ''//'')"

text \<open>Modelled from the spec: a path without its drive.\<close>

definition pathBody :: "Platform \<Rightarrow> string \<Rightarrow> string" where
  "pathBody pf s = drop (length (driveOf pf s)) s"

text \<open>Modelled from the spec: a path that starts at the root of the file system or drive.\<close>

definition isAbsolute :: "string \<Rightarrow> bool" where
  "isAbsolute s = (case s of [] \<Rightarrow> False | c # cs \<Rightarrow> c = CHR ''/'')"

text \<open>
  Modelled from the spec: two spellings of one file resolve to one identifier. Empty
  segments and \<^verbatim>\<open>.\<close> are dropped, and \<^verbatim>\<open>..\<close> removes the segment before it. Where no
  segment is before it, \<^verbatim>\<open>..\<close> stays at the root in an absolute path and is kept in a
  relative one, which it leads out of the directory the path starts from.
\<close>

definition normStep :: "bool \<Rightarrow> string list \<Rightarrow> string \<Rightarrow> string list" where
  "normStep absolute acc seg =
     (if seg = [] \<or> seg = ''.'' then acc
      else if seg = ''..'' then
        (if acc = [] \<or> last acc = ''..'' then (if absolute then acc else acc @ [''..''])
         else butlast acc)
      else acc @ [seg])"

text \<open>Modelled from the spec: the normal segments of a path, by \<open>normStep\<close> from the left.\<close>

definition normalizeSegments :: "bool \<Rightarrow> string list \<Rightarrow> string list" where
  "normalizeSegments absolute segs = foldl (normStep absolute) [] segs"

text \<open>
  Modelled from the spec: the normal segments of a path written with \<^verbatim>\<open>/\<close>, its drive
  left out.
\<close>

definition pathSegments :: "Platform \<Rightarrow> string \<Rightarrow> string list" where
  "pathSegments pf s =
     normalizeSegments (isAbsolute (pathBody pf s)) (splitSlash (pathBody pf s))"

text \<open>
  Modelled from the spec: the characters that percent-encoding keeps, which are letters,
  digits and \<^verbatim>\<open>-_.~/\<close>; every other byte is reserved.
\<close>

definition unreserved :: "char \<Rightarrow> bool" where
  "unreserved c =
     (c \<in> set ''ABCDEFGHIJKLMNOPQRSTUVWXYZabcdefghijklmnopqrstuvwxyz0123456789-_.~/'')"

text \<open>Modelled from the spec: the hexadecimal digit of a number below sixteen.\<close>

definition hexDigit :: "nat \<Rightarrow> char" where
  "hexDigit n = ''0123456789ABCDEF'' ! n"

text \<open>Modelled from the spec: the value of a hexadecimal digit, in either case.\<close>

definition hexValue :: "char \<Rightarrow> nat option" where
  "hexValue c =
     map_of [(CHR ''0'', 0), (CHR ''1'', 1), (CHR ''2'', 2), (CHR ''3'', 3), (CHR ''4'', 4),
             (CHR ''5'', 5), (CHR ''6'', 6), (CHR ''7'', 7), (CHR ''8'', 8), (CHR ''9'', 9),
             (CHR ''A'', 10), (CHR ''B'', 11), (CHR ''C'', 12), (CHR ''D'', 13),
             (CHR ''E'', 14), (CHR ''F'', 15),
             (CHR ''a'', 10), (CHR ''b'', 11), (CHR ''c'', 12), (CHR ''d'', 13),
             (CHR ''e'', 14), (CHR ''f'', 15)] c"

text \<open>
  Modelled from the spec: percent-encoding of one byte; a reserved byte becomes \<^verbatim>\<open>%\<close> and
  its two hexadecimal digits.
\<close>

definition encodeChar :: "char \<Rightarrow> string" where
  "encodeChar c =
     (if unreserved c then [c]
      else [CHR ''%'', hexDigit (of_char c div 16), hexDigit (of_char c mod 16)])"

text \<open>Modelled from the spec: percent-encoding of a string.\<close>

definition percentEncode :: "string \<Rightarrow> string" where
  "percentEncode s = concat (map encodeChar s)"

text \<open>
  Modelled from the spec: percent-decoding. A \<^verbatim>\<open>%\<close> that no two hexadecimal digits follow
  stays as it is.
\<close>

fun percentDecode :: "string \<Rightarrow> string" where
  "percentDecode (c # h # l # cs) =
     (if c = CHR ''%'' then
        (case (hexValue h, hexValue l) of
           (Some a, Some b) \<Rightarrow> char_of (16 * a + b) # percentDecode cs
         | _ \<Rightarrow> c # percentDecode (h # l # cs))
      else c # percentDecode (h # l # cs))"
| "percentDecode cs = cs"

text \<open>
  Modelled from the spec: a path is contained in the root when neither names a network
  share, both have the same drive, both are absolute or both relative, the normal segments
  of the root begin those of the path, and no \<^verbatim>\<open>..\<close> is among the segments that follow.
\<close>

definition containedInRoot :: "Platform \<Rightarrow> LocalFsPath \<Rightarrow> LocalFsPath \<Rightarrow> bool" where
  "containedInRoot pf root p =
     (let rootPosix = posixifyPath pf root;
          targetPosix = posixifyPath pf p;
          rs = pathSegments pf rootPosix;
          ts = pathSegments pf targetPosix
      in \<not> isUNC pf rootPosix \<and> \<not> isUNC pf targetPosix \<and>
         driveOf pf rootPosix = driveOf pf targetPosix \<and>
         isAbsolute (pathBody pf rootPosix) = isAbsolute (pathBody pf targetPosix) \<and>
         take (length rs) ts = rs \<and>
         ''..'' \<notin> set (drop (length rs) ts))"

text \<open>
  Modelled from the spec: \<^verbatim>\<open>resolve\<close>, in the sources \<^verbatim>\<open>urlFromPath(root, path)\<close>, which
  is missing. It fails for a path that is not contained in the root; otherwise the
  identifier is the percent-encoded path relative to the root.
\<close>

definition urlFromPath :: "Platform \<Rightarrow> LocalFsPath \<Rightarrow> LocalFsPath \<Rightarrow> error + string" where
  "urlFromPath pf root p =
     (if containedInRoot pf root p then
        (let rs = pathSegments pf (posixifyPath pf root);
             ts = pathSegments pf (posixifyPath pf p)
         in Inr (percentEncode (joinSlash (drop (length rs) ts))))
      else Inl (NotInRoot p))"

text \<open>
  Modelled from the spec: \<^verbatim>\<open>toPath\<close>, in the tests the suite \<^verbatim>\<open>pathFromUrl()\<close>, whose
  function is missing. The identifier is decoded, given the platform's separators and
  joined to the root: after a separator, unless the root ends with one; a root that names
  no directory, empty or a drive alone, stands for the current directory \<^verbatim>\<open>.\<close> there.
\<close>

definition pathFromUrl :: "Platform \<Rightarrow> LocalFsPath \<Rightarrow> string \<Rightarrow> LocalFsPath" where
  "pathFromUrl pf root u =
     (let rel = platformifyPath pf (percentDecode u);
          rootPosix = posixifyPath pf root
      in if pathBody pf rootPosix = [] then root @ CHR ''.'' # pathSeparator pf # rel
         else if last rootPosix = CHR ''/'' then root @ rel
         else root @ pathSeparator pf # rel)"

text \<open>The paths of the tests, and a Windows path written with both separators.\<close>

definition testRoot :: LocalFsPath where
  "testRoot = ''/Users/TEST_USER/TEST_ROOT''"

definition windowsRoot :: LocalFsPath where
  "windowsRoot = [CHR ''C'', CHR '':'', CHR 0x5C, CHR ''r'']"

definition windowsTarget :: LocalFsPath where
  "windowsTarget = windowsRoot @ [CHR 0x5C, CHR ''s'', CHR ''/'', CHR ''a'', CHR '' '', CHR ''b'']"

text \<open>
  A directory at the root of the current Windows drive, and a path on a network share
  that would reach a file of that name if \<^verbatim>\<open>..\<close> could leave the share.
\<close>

definition driveRoot :: LocalFsPath where
  "driveRoot = [CHR 0x5C, CHR ''r'']"

definition shareTarget :: LocalFsPath where
  "shareTarget =
     [CHR 0x5C, CHR 0x5C, CHR ''a'', CHR 0x5C, CHR ''b'', CHR 0x5C, CHR ''.'', CHR ''.'',
      CHR 0x5C, CHR ''.'', CHR ''.'', CHR 0x5C, CHR ''r'', CHR 0x5C, CHR ''x'']"

text \<open>A segment is plain when normalisation keeps it: not empty, not a dot, not two dots.\<close>

definition plainSegment :: "string \<Rightarrow> bool" where
  "plainSegment seg = (seg \<noteq> [] \<and> seg \<noteq> ''.'' \<and> seg \<noteq> ''..'')"

text \<open>
  The table of deferred files is in order when no url and no promise occurs twice in it
  and every promise in it has been created and is pending.
\<close>

definition pendingTable :: "State \<Rightarrow> bool" where
  "pendingTable st =
     (distinct (map fst (deferredFiles st)) \<and> distinct (map snd (deferredFiles st)) \<and>
      (\<forall>e\<in>set (deferredFiles st). snd e < nextPromise st \<and> promises st (snd e) = Pending))"

section \<open>What a call leaves unchanged\<close>

lemma state_of_simps [simp]: "state_of (Inl (e, s)) = s" "state_of (Inr s) = s"
  by (simp_all add: state_of_def)

lemma settle_frame [simp]:
  "sourceFilesLoaded (settle st p oc) = sourceFilesLoaded st"
  "files (settle st p oc) = files st"
  "warnings (settle st p oc) = warnings st"
  "allFragmentsToAnalyze (settle st p oc) = allFragmentsToAnalyze st"
  "depsToFragments (settle st p oc) = depsToFragments st"
  "fragmentToDeps (settle st p oc) = fragmentToDeps st"
  "fragmentToFullDeps (settle st p oc) = fragmentToFullDeps st"
  "deferredFiles (settle st p oc) = deferredFiles st"
  "nextPromise (settle st p oc) = nextPromise st"
  "dependenciesStream (settle st p oc) = dependenciesStream st"
  "dependenciesStreamEnded (settle st p oc) = dependenciesStreamEnded st"
  "sourcesErrors (settle st p oc) = sourcesErrors st"
  "dependenciesErrors (settle st p oc) = dependenciesErrors st"
  "analysisResolved (settle st p oc) = analysisResolved st"
  by (simp_all add: settle_def)

lemma rejectDeferredFile_frame:
  assumes "rejectDeferredFile st u e = r"
  shows "sourceFilesLoaded (state_of r) = sourceFilesLoaded st"
    and "allFragmentsToAnalyze (state_of r) = allFragmentsToAnalyze st"
    and "analysisResolved (state_of r) = analysisResolved st"
    and "files (state_of r) = files st"
    and "dependenciesStream (state_of r) = dependenciesStream st"
    and "distinct (map fst (deferredFiles st)) \<Longrightarrow> distinct (map fst (deferredFiles (state_of r)))"
  using assms
  by (auto simp: rejectDeferredFile_def distinct_delete split: option.splits)

lemma rejectMissingSources_frame:
  "sourceFilesLoaded (state_of (rejectMissingSources env st us)) = sourceFilesLoaded st \<and>
   allFragmentsToAnalyze (state_of (rejectMissingSources env st us)) = allFragmentsToAnalyze st \<and>
   analysisResolved (state_of (rejectMissingSources env st us)) = analysisResolved st \<and>
   (distinct (map fst (deferredFiles st)) \<longrightarrow>
      distinct (map fst (deferredFiles (state_of (rejectMissingSources env st us)))))"
proof (induction us arbitrary: st)
  case Nil
  show ?case by simp
next
  case (Cons u us)
  show ?case
  proof (cases "pathFromResolvedUrl env u")
    case (Inl e)
    then show ?thesis by simp
  next
    case (Inr fp)
    show ?thesis
    proof (cases "isSource env fp")
      case False
      with Inr Cons.IH [of st] show ?thesis by simp
    next
      case True
      show ?thesis
      proof (cases "rejectDeferredFile st u (NotFound u)")
        case (Inl x)
        with Inr True rejectDeferredFile_frame [OF Inl] show ?thesis
          by simp
      next
        case r: (Inr st')
        with Inr True rejectDeferredFile_frame [OF r] Cons.IH [of st'] show ?thesis
          by simp
      qed
    qed
  qed
qed

lemma done_returns: "\<exists>st'. BuildAnalyzer_done st = Inr st'"
  by (auto simp: BuildAnalyzer_done_def Let_def rejectDeferredFile_def split: list.splits)

lemma done_frame:
  "sourceFilesLoaded (state_of (BuildAnalyzer_done st)) = sourceFilesLoaded st"
  "allFragmentsToAnalyze (state_of (BuildAnalyzer_done st)) = allFragmentsToAnalyze st"
  "distinct (map fst (deferredFiles st)) \<Longrightarrow>
     distinct (map fst (deferredFiles (state_of (BuildAnalyzer_done st))))"
  by (auto simp: BuildAnalyzer_done_def Let_def emitAnalysisError_def rejectDeferredFile_def
      distinct_delete split: list.splits)

lemma done_keeps_index:
  assumes "BuildAnalyzer_done st = Inr st'"
  shows "allFragmentsToAnalyze st' = allFragmentsToAnalyze st"
    and "fragmentToDeps st' = fragmentToDeps st"
    and "fragmentToFullDeps st' = fragmentToFullDeps st"
    and "depsToFragments st' = depsToFragments st"
  using assms
  by (auto simp: BuildAnalyzer_done_def Let_def emitAnalysisError_def rejectDeferredFile_def
      split: list.splits if_splits)

section \<open>Invariants of runs\<close>

text \<open>
  Once the set of fragments to analyze is empty, no later call resolves the analysis
  promise: \<^verbatim>\<open>_done\<close> is reached only through an index update that succeeds, which needs a
  fragment in the set.
\<close>

lemma step_keeps_unresolved:
  assumes "allFragmentsToAnalyze st = {}" and "\<not> analysisResolved st"
  shows "allFragmentsToAnalyze (step env st ev) = {} \<and> \<not> analysisResolved (step env st ev)"
proof (cases ev)
  case (ResolveFile f)
  with assms show ?thesis
    by (auto simp: resolveFile_def addFile_def Let_def resolveDeferredFile_def
        split: sum.splits option.splits)
next
  case (AnalyzeFile f an)
  with assms show ?thesis
    by (auto simp: analyzeFile_def BuildAnalyzer_getDependencies_def updateIndex_def
        BuildAnalyzer_addDependencies_def split: sum.splits Analysis.splits option.splits)
next
  case SourcesStreamComplete
  with assms rejectMissingSources_frame [of env st "map fst (deferredFiles st)"] show ?thesis
    by (auto simp: onSourcesStreamComplete_def split: sum.splits)
next
  case (Load u)
  with assms show ?thesis
    by (auto simp: load_def Let_def newPromise_def sourceUrlAnalyzed_def
        dependencyUrlAnalyzed_def rejectDeferredFile_def
        split: sum.splits option.splits prod.splits)
next
  case (AddFile f)
  with assms show ?thesis
    by (auto simp: addFile_def Let_def split: sum.splits)
qed

lemma run_keeps_unresolved:
  "allFragmentsToAnalyze st = {} \<Longrightarrow> \<not> analysisResolved st \<Longrightarrow> \<not> analysisResolved (run env st evs)"
proof (induction evs arbitrary: st)
  case Nil
  then show ?case by simp
next
  case (Cons e es)
  from step_keeps_unresolved [OF Cons.prems, of env e] Cons.IH [of "step env st e"]
  show ?case by simp
qed

text \<open>The flag \<open>sourceFilesLoaded\<close> is never reset.\<close>

lemma step_sourceFilesLoaded:
  assumes "sourceFilesLoaded st"
  shows "sourceFilesLoaded (step env st ev)"
proof (cases ev)
  case (ResolveFile f)
  with assms show ?thesis
    by (auto simp: resolveFile_def addFile_def Let_def resolveDeferredFile_def
        split: sum.splits option.splits)
next
  case (AnalyzeFile f an)
  have "sourceFilesLoaded (state_of (updateIndex s u d)) = sourceFilesLoaded s" for s u d
    by (auto simp: updateIndex_def BuildAnalyzer_addDependencies_def Let_def done_frame)
  with AnalyzeFile assms show ?thesis
    by (auto simp: analyzeFile_def BuildAnalyzer_getDependencies_def
        split: sum.splits Analysis.splits option.splits)
next
  case SourcesStreamComplete
  with assms rejectMissingSources_frame [of env st "map fst (deferredFiles st)"] show ?thesis
    by (auto simp: onSourcesStreamComplete_def split: sum.splits)
next
  case (Load u)
  with assms show ?thesis
    by (auto simp: load_def Let_def newPromise_def sourceUrlAnalyzed_def
        dependencyUrlAnalyzed_def rejectDeferredFile_def
        split: sum.splits option.splits prod.splits)
next
  case (AddFile f)
  with assms show ?thesis
    by (auto simp: addFile_def Let_def split: sum.splits)
qed

lemma run_sourceFilesLoaded:
  "sourceFilesLoaded st \<Longrightarrow> sourceFilesLoaded (run env st evs)"
  by (induction evs arbitrary: st) (auto simp: step_sourceFilesLoaded)

lemma onSourcesStreamComplete_sets_flag:
  "onSourcesStreamComplete env st0 = Inr st1 \<Longrightarrow> sourceFilesLoaded st1"
  by (auto simp: onSourcesStreamComplete_def split: sum.splits)

text \<open>The table of deferred files has one entry for a url at most.\<close>

lemma load_distinct:
  assumes "distinct (map fst (deferredFiles st))"
  shows "distinct (map fst (deferredFiles (fst (load env st u))))"
  using assms
  by (auto simp: load_def Let_def newPromise_def sourceUrlAnalyzed_def
        dependencyUrlAnalyzed_def rejectDeferredFile_def distinct_update distinct_delete
        split: sum.splits option.splits prod.splits)

lemma step_distinct:
  assumes "distinct (map fst (deferredFiles st))"
  shows "distinct (map fst (deferredFiles (step env st ev)))"
proof (cases ev)
  case (ResolveFile f)
  with assms show ?thesis
    by (auto simp: resolveFile_def addFile_def Let_def resolveDeferredFile_def distinct_delete
        split: sum.splits option.splits)
next
  case (AnalyzeFile f an)
  have "distinct (map fst (deferredFiles s)) \<Longrightarrow>
        distinct (map fst (deferredFiles (state_of (updateIndex s u d))))" for s u d
    by (auto simp: updateIndex_def BuildAnalyzer_addDependencies_def Let_def done_frame)
  with AnalyzeFile assms show ?thesis
    by (auto simp: analyzeFile_def BuildAnalyzer_getDependencies_def
        split: sum.splits Analysis.splits option.splits)
next
  case SourcesStreamComplete
  with assms rejectMissingSources_frame [of env st "map fst (deferredFiles st)"] show ?thesis
    by (auto simp: onSourcesStreamComplete_def split: sum.splits)
next
  case (Load u)
  with assms load_distinct show ?thesis by simp
next
  case (AddFile f)
  with assms show ?thesis
    by (auto simp: addFile_def Let_def split: sum.splits)
qed

lemma run_distinct:
  "distinct (map fst (deferredFiles st)) \<Longrightarrow> distinct (map fst (deferredFiles (run env st evs)))"
  by (induction evs arbitrary: st) (auto simp: step_distinct)

lemma filter_update_key:
  "distinct (map fst al) \<Longrightarrow> filter (\<lambda>e. fst e = u) (AList.update u p al) = [(u, p)]"
proof (induction al)
  case Nil
  show ?case by simp
next
  case (Cons a al)
  have "filter (\<lambda>e. fst e = u) al = []" if "fst a = u"
    using that Cons.prems by (force simp: filter_empty_conv image_iff)
  with Cons show ?case by auto
qed

lemma initial_distinct: "distinct (map fst (deferredFiles (initial F)))"
  by (simp add: initial_def)

text \<open>
  In every state of a run the table of deferred files is in order: a promise is stored
  under one url, and it is settled only when its entry is deleted.
\<close>

lemma set_delete: "set (AList.delete u al) = {e \<in> set al. fst e \<noteq> u}"
  by (auto simp: AList.delete_eq)

lemma distinct_snd_delete:
  "distinct (map snd al) \<Longrightarrow> distinct (map snd (AList.delete u al))"
  by (simp add: AList.delete_eq distinct_map_filter)

lemma set_update_subset: "set (AList.update u p al) \<subseteq> insert (u, p) (set al)"
  by (induction al) auto

lemma set_update:
  "distinct (map fst al) \<Longrightarrow>
   set (AList.update u p al) \<subseteq> insert (u, p) {e \<in> set al. fst e \<noteq> u}"
  by (induction al) (auto simp: image_iff)

lemma snd_unique:
  assumes "distinct (map snd al)" and "(u, p) \<in> set al" and "e \<in> set al" and "fst e \<noteq> u"
  shows "snd e \<noteq> p"
proof
  assume "snd e = p"
  moreover from assms(1) have "inj_on snd (set al)" by (simp add: distinct_map)
  ultimately have "e = (u, p)" using assms(2,3) inj_onD [of snd "set al" e "(u, p)"] by simp
  with assms(4) show False by simp
qed

lemma distinct_snd_update:
  assumes "distinct (map snd al)" and "p \<notin> snd ` set al"
  shows "distinct (map snd (AList.update u p al))"
  using assms
proof (induction al)
  case Nil
  then show ?case by simp
next
  case (Cons a al)
  have "snd ` set (AList.update u p al) \<subseteq> insert p (snd ` set al)"
    using set_update_subset [of u p al] by auto
  with Cons show ?case by auto
qed

lemma settle_delete_pendingTable:
  assumes "pendingTable st" and "map_of (deferredFiles st) u = Some p"
  shows "pendingTable ((settle st p oc)\<lparr>deferredFiles := AList.delete u (deferredFiles st)\<rparr>)"
proof -
  from assms(2) have m: "(u, p) \<in> set (deferredFiles st)" by (rule map_of_SomeD)
  have "promises (settle st p oc) (snd e) = Pending \<and> snd e < nextPromise st"
    if "e \<in> set (deferredFiles st)" "fst e \<noteq> u" for e
  proof -
    from assms(1) that(1) have "snd e < nextPromise st" "promises st (snd e) = Pending"
      by (simp_all add: pendingTable_def)
    moreover from assms(1) m that have "snd e \<noteq> p"
      by (intro snd_unique [of "deferredFiles st" u p e]) (simp_all add: pendingTable_def)
    ultimately show ?thesis by (simp add: settle_def)
  qed
  with assms(1) show ?thesis
    by (simp add: pendingTable_def distinct_delete distinct_snd_delete set_delete)
qed

lemma rejectDeferredFile_pendingTable:
  "pendingTable st \<Longrightarrow> pendingTable (state_of (rejectDeferredFile st u e))"
  by (auto simp: rejectDeferredFile_def settle_delete_pendingTable split: option.splits)

lemma resolveDeferredFile_pendingTable:
  "pendingTable st \<Longrightarrow> pendingTable (state_of (resolveDeferredFile st u f))"
  by (auto simp: resolveDeferredFile_def settle_delete_pendingTable split: option.splits)

lemma rejectMissingSources_pendingTable:
  "pendingTable st \<Longrightarrow> pendingTable (state_of (rejectMissingSources env st us))"
proof (induction us arbitrary: st)
  case Nil
  then show ?case by simp
next
  case (Cons u us)
  show ?case
  proof (cases "pathFromResolvedUrl env u")
    case (Inl e)
    with Cons.prems show ?thesis by simp
  next
    case (Inr fp)
    show ?thesis
    proof (cases "isSource env fp")
      case False
      with Inr Cons show ?thesis by simp
    next
      case True
      show ?thesis
      proof (cases "rejectDeferredFile st u (NotFound u)")
        case (Inl x)
        with Inr True rejectDeferredFile_pendingTable [OF Cons.prems, of u "NotFound u"]
        show ?thesis by (cases x) simp
      next
        case r: (Inr st')
        with rejectDeferredFile_pendingTable [OF Cons.prems, of u "NotFound u"]
        have "pendingTable st'" by simp
        from Cons.IH [OF this] Inr True r show ?thesis by simp
      qed
    qed
  qed
qed

lemma pendingTable_fields:
  "deferredFiles st' = deferredFiles st \<Longrightarrow> promises st' = promises st \<Longrightarrow>
   nextPromise st' = nextPromise st \<Longrightarrow> pendingTable st' = pendingTable st"
  by (simp add: pendingTable_def)

lemma done_pendingTable:
  "pendingTable st \<Longrightarrow> pendingTable (state_of (BuildAnalyzer_done st))"
  using rejectDeferredFile_pendingTable [of st]
  by (auto simp: BuildAnalyzer_done_def Let_def emitAnalysisError_def pendingTable_def
      split: list.splits)

lemma registered_pendingTable:
  assumes "pendingTable st"
  shows "pendingTable
     ((newPromise st Pending)\<lparr>deferredFiles := AList.update u (nextPromise st) (deferredFiles st)\<rparr>)"
proof -
  have n: "nextPromise st \<notin> snd ` set (deferredFiles st)"
    using assms by (auto simp: pendingTable_def)
  have "snd e < Suc (nextPromise st) \<and>
        ((promises st)(nextPromise st := Pending)) (snd e) = Pending"
    if "e \<in> set (AList.update u (nextPromise st) (deferredFiles st))" for e
    using that set_update_subset [of u "nextPromise st" "deferredFiles st"] assms
    by (auto simp: pendingTable_def less_Suc_eq)
  with assms n show ?thesis
    by (simp add: pendingTable_def newPromise_def distinct_update distinct_snd_update)
qed

lemma newPromise_pendingTable:
  "pendingTable st \<Longrightarrow> pendingTable (newPromise st oc)"
  by (auto simp: pendingTable_def newPromise_def)

lemma load_pendingTable:
  assumes "pendingTable st"
  shows "pendingTable (fst (load env st u))"
proof -
  define st1 where
    "st1 = (newPromise st Pending)\<lparr>deferredFiles := AList.update u (nextPromise st) (deferredFiles st)\<rparr>"
  have p1: "pendingTable st1"
    unfolding st1_def by (rule registered_pendingTable [OF assms])
  have p2: "pendingTable (st1\<lparr>dependenciesStream := xs\<rparr>)" for xs
    using p1 by (simp add: pendingTable_def)
  have m: "map_of (deferredFiles st1) u = Some (nextPromise st)"
    by (simp add: st1_def update_conv')
  have p3: "pendingTable (fst (case rejectDeferredFile st1 u err of
                     Inr st3 \<Rightarrow> (st3, p)
                   | Inl (err', st3) \<Rightarrow> (settle st3 p (Rejected err'), p)))" for err p
    using rejectDeferredFile_pendingTable [OF p1, of u err] m
    by (simp add: rejectDeferredFile_def)
  show ?thesis
    using newPromise_pendingTable [OF assms] p1 p2 p3
    by (auto simp: load_def Let_def st1_def [symmetric] sourceUrlAnalyzed_def
        dependencyUrlAnalyzed_def split: sum.splits option.splits prod.splits)
qed

lemma step_pendingTable:
  assumes "pendingTable st"
  shows "pendingTable (step env st ev)"
proof (cases ev)
  case (ResolveFile f)
  have "pendingTable s \<Longrightarrow> pendingTable (s\<lparr>files := m\<rparr>)" for s m
    by (simp add: pendingTable_def)
  with ResolveFile assms resolveDeferredFile_pendingTable show ?thesis
    by (auto simp: resolveFile_def addFile_def Let_def split: sum.splits)
next
  case (AnalyzeFile f an)
  have w: "pendingTable s \<Longrightarrow> pendingTable (s\<lparr>warnings := ws\<rparr>)" for s ws
    by (simp add: pendingTable_def)
  have "pendingTable s \<Longrightarrow> pendingTable (state_of (updateIndex s u d))" for s u d
    using done_pendingTable
      [of "s\<lparr>fragmentToFullDeps := (fragmentToFullDeps s)(u \<mapsto> d),
             fragmentToDeps := (fragmentToDeps s)(u \<mapsto> imports' d),
             depsToFragments := foldl addEntrypoint (depsToFragments s) (imports' d),
             allFragmentsToAnalyze := allFragmentsToAnalyze s - {u}\<rparr>"]
    by (auto simp: updateIndex_def BuildAnalyzer_addDependencies_def Let_def pendingTable_def)
  with AnalyzeFile assms w show ?thesis
    by (auto simp: analyzeFile_def BuildAnalyzer_getDependencies_def
        split: sum.splits Analysis.splits option.splits)
next
  case SourcesStreamComplete
  have "pendingTable s \<Longrightarrow> pendingTable (s\<lparr>sourceFilesLoaded := b\<rparr>)" for s b
    by (simp add: pendingTable_def)
  with SourcesStreamComplete assms
    rejectMissingSources_pendingTable [of st env "map fst (deferredFiles st)"]
  show ?thesis
    by (auto simp: onSourcesStreamComplete_def split: sum.splits)
next
  case (Load u)
  with load_pendingTable [OF assms] show ?thesis by simp
next
  case (AddFile f)
  with assms show ?thesis
    by (auto simp: addFile_def Let_def pendingTable_def split: sum.splits)
qed

lemma run_pendingTable:
  "pendingTable st \<Longrightarrow> pendingTable (run env st evs)"
  by (induction evs arbitrary: st) (auto simp: step_pendingTable)

lemma initial_pendingTable: "pendingTable (initial F)"
  by (simp add: pendingTable_def initial_def)

section \<open>The severity tally\<close>

lemma severity_distinct [simp]:
  "ERROR \<noteq> WARNING" "ERROR \<noteq> INFO" "WARNING \<noteq> INFO"
  "WARNING \<noteq> ERROR" "INFO \<noteq> ERROR" "INFO \<noteq> WARNING"
  by (simp_all add: ERROR_def WARNING_def INFO_def)

lemma foldl_countStep_Num:
  "m k = Some (Num n) \<Longrightarrow>
   foldl countStep m ws k = Some (Num (n + length (filter (\<lambda>w. severity w = k) ws)))"
proof (induction ws arbitrary: m n)
  case Nil
  then show ?case by simp
next
  case (Cons w ws)
  show ?case
  proof (cases "severity w = k")
    case True
    with Cons.prems have "countStep m w k = Some (Num (Suc n))"
      by (simp add: countStep_def plus1_def)
    from Cons.IH [of "countStep m w" "Suc n", OF this] True show ?thesis by simp
  next
    case False
    with Cons.prems have "countStep m w k = Some (Num n)"
      by (simp add: countStep_def)
    from Cons.IH [of "countStep m w" n, OF this] False show ?thesis by simp
  qed
qed

lemma count_ERROR:
  "countWarningsByType ws ERROR = Some (Num (length (filter (\<lambda>w. severity w = ERROR) ws)))"
  using foldl_countStep_Num [of _ ERROR 0 ws] by (simp add: countWarningsByType_def)

lemma count_WARNING:
  "countWarningsByType ws WARNING = Some (Num (length (filter (\<lambda>w. severity w = WARNING) ws)))"
  using foldl_countStep_Num [of _ WARNING 0 ws] by (simp add: countWarningsByType_def)

lemma count_INFO:
  "countWarningsByType ws INFO = Some (Num (length (filter (\<lambda>w. severity w = INFO) ws)))"
  using foldl_countStep_Num [of _ INFO 0 ws] by (simp add: countWarningsByType_def)

lemma three_way_count:
  "\<forall>w\<in>set ws. severity w = INFO \<or> severity w = WARNING \<or> severity w = ERROR \<Longrightarrow>
   length (filter (\<lambda>w. severity w = INFO) ws) + length (filter (\<lambda>w. severity w = WARNING) ws)
     + length (filter (\<lambda>w. severity w = ERROR) ws) = length ws"
  by (induction ws) auto

lemmas example_defs = exampleEnv_def indexUrl_def sharedUrl_def styleUrl_def scriptUrl_def
  indexFile_def sharedFileOld_def sharedFileNew_def initial_def exampleWarnings_def
  stateWithError_def noDeps_def

section \<open>The dependency index\<close>

text \<open>
  C1. The claim: for each import \<open>d\<close> of a fragment \<open>f\<close>, the reverse list of \<open>d\<close> contains
  \<open>f\<close> after the index update. The code does not do this. For the fragment
  \<^verbatim>\<open>index.html\<close>, which imports \<^verbatim>\<open>shared.html\<close>, the reverse list of \<^verbatim>\<open>shared.html\<close>
  is \<^verbatim>\<open>shared.html\<close> itself and does not contain \<^verbatim>\<open>index.html\<close>.
\<close>

theorem reverse_index_records_the_import_itself:
  "depsToFragments
     (run exampleEnv (initial {indexUrl})
        [AnalyzeFile indexFile
           (Successful [] [(sharedUrl, ''html-import''), (styleUrl, ''html-style'')])])
     sharedUrl = Some [sharedUrl] \<and> indexUrl \<notin> set [sharedUrl]"
  by (simp add: example_defs analyzeFile_def BuildAnalyzer_getDependencies_def set_add_def
      updateIndex_def BuildAnalyzer_addDependencies_def addEntrypoint_def BuildAnalyzer_done_def
      countWarningsByType_def positive_def count_of_def)

text \<open>
  C8. An index update for a fragment that is not in the set of fragments to analyze throws
  \<^verbatim>\<open>Dependency analysis incorrectly called\<close> and leaves the state, hence the three maps of
  the index, as it was. An index update for a fragment in the set returns, records the
  dependencies and removes the fragment from the set, so that a second update for it throws.
\<close>

theorem updateIndex_guard:
  "if u \<in> allFragmentsToAnalyze st
   then (\<exists>st'. updateIndex st u deps = Inr st' \<and>
           allFragmentsToAnalyze st' = allFragmentsToAnalyze st - {u} \<and>
           fragmentToDeps st' u = Some (imports' deps) \<and>
           fragmentToFullDeps st' u = Some deps \<and>
           updateIndex st' u deps' = Inl (IncorrectlyCalled u, st'))
   else updateIndex st u deps = Inl (IncorrectlyCalled u, st)"
proof (cases "u \<in> allFragmentsToAnalyze st")
  case False
  then show ?thesis
    by (simp add: updateIndex_def BuildAnalyzer_addDependencies_def)
next
  case True
  define st3 where
    "st3 = st\<lparr>fragmentToFullDeps := (fragmentToFullDeps st)(u \<mapsto> deps),
              fragmentToDeps := (fragmentToDeps st)(u \<mapsto> imports' deps),
              depsToFragments := foldl addEntrypoint (depsToFragments st) (imports' deps),
              allFragmentsToAnalyze := allFragmentsToAnalyze st - {u}\<rparr>"
  have u: "updateIndex st u deps =
      (if allFragmentsToAnalyze st - {u} = {} then BuildAnalyzer_done st3 else Inr st3)"
    using True by (simp add: updateIndex_def BuildAnalyzer_addDependencies_def st3_def)
  obtain st' where r: "updateIndex st u deps = Inr st'"
    and k: "allFragmentsToAnalyze st' = allFragmentsToAnalyze st3"
      "fragmentToDeps st' = fragmentToDeps st3" "fragmentToFullDeps st' = fragmentToFullDeps st3"
  proof (cases "allFragmentsToAnalyze st - {u} = {}")
    case False
    with u that [of st3] show ?thesis by simp
  next
    case e: True
    obtain s where s: "BuildAnalyzer_done st3 = Inr s"
      using done_returns by blast
    with u e that [of s] done_keeps_index [OF s] show ?thesis by simp
  qed
  have "u \<notin> allFragmentsToAnalyze st'"
    using k by (simp add: st3_def)
  then have "updateIndex st' u deps' = Inl (IncorrectlyCalled u, st')"
    by (simp add: updateIndex_def BuildAnalyzer_addDependencies_def)
  with r k True show ?thesis by (simp add: st3_def)
qed

theorem updateIndex_guard_witness:
  "indexUrl \<in> allFragmentsToAnalyze (initial {indexUrl, sharedUrl}) \<and>
   allFragmentsToAnalyze (state_of (updateIndex (initial {indexUrl, sharedUrl}) indexUrl
      \<lparr>imports' = [sharedUrl], scripts = [], styles = []\<rparr>)) = {sharedUrl} \<and>
   styleUrl \<notin> allFragmentsToAnalyze (initial {indexUrl, sharedUrl}) \<and>
   updateIndex (initial {indexUrl, sharedUrl}) styleUrl \<lparr>imports' = [], scripts = [], styles = []\<rparr>
     = Inl (IncorrectlyCalled styleUrl, initial {indexUrl, sharedUrl})"
proof -
  have a: "indexUrl \<in> allFragmentsToAnalyze (initial {indexUrl, sharedUrl})"
    by (simp add: initial_def)
  have b: "styleUrl \<notin> allFragmentsToAnalyze (initial {indexUrl, sharedUrl})"
    by (simp add: example_defs)
  have c: "{indexUrl, sharedUrl} - {indexUrl} = {sharedUrl}"
    by (auto simp: example_defs)
  from updateIndex_guard [of indexUrl "initial {indexUrl, sharedUrl}"
        "\<lparr>imports' = [sharedUrl], scripts = [], styles = []\<rparr>"] a
  obtain st' where "updateIndex (initial {indexUrl, sharedUrl}) indexUrl
        \<lparr>imports' = [sharedUrl], scripts = [], styles = []\<rparr> = Inr st'"
      and "allFragmentsToAnalyze st' = allFragmentsToAnalyze (initial {indexUrl, sharedUrl}) - {indexUrl}"
    by auto
  then have d: "allFragmentsToAnalyze (state_of (updateIndex (initial {indexUrl, sharedUrl}) indexUrl
      \<lparr>imports' = [sharedUrl], scripts = [], styles = []\<rparr>)) = {sharedUrl}"
    using c by (simp add: initial_def)
  from updateIndex_guard [of styleUrl "initial {indexUrl, sharedUrl}"
        "\<lparr>imports' = [], scripts = [], styles = []\<rparr>"] b
  have e: "updateIndex (initial {indexUrl, sharedUrl}) styleUrl
      \<lparr>imports' = [], scripts = [], styles = []\<rparr>
     = Inl (IncorrectlyCalled styleUrl, initial {indexUrl, sharedUrl})"
    by simp
  from a b d e show ?thesis by simp
qed

section \<open>The file store and the loader\<close>

text \<open>
  C2, as stated: a request for a url that is not loaded fails when the url has a pending
  entry already. It does not. After one request for \<^verbatim>\<open>style.css\<close> the url is deferred
  and not loaded; the second request returns a promise that is pending, the table holds the
  callbacks of the second promise under the url, and the first promise stays pending with
  its callbacks gone from the table.
\<close>

theorem duplicate_request_counterexample:
  "hasDeferredFile (run exampleEnv (initial {indexUrl}) [Load styleUrl]) styleUrl \<and>
   files (run exampleEnv (initial {indexUrl}) [Load styleUrl]) styleUrl = None \<and>
   promises (fst (load exampleEnv (run exampleEnv (initial {indexUrl}) [Load styleUrl]) styleUrl))
     (snd (load exampleEnv (run exampleEnv (initial {indexUrl}) [Load styleUrl]) styleUrl))
     = Pending \<and>
   deferredFiles (fst (load exampleEnv (run exampleEnv (initial {indexUrl}) [Load styleUrl]) styleUrl))
     = [(styleUrl, 1)] \<and>
   promises (fst (load exampleEnv (run exampleEnv (initial {indexUrl}) [Load styleUrl]) styleUrl)) 0
     = Pending"
  by (simp add: example_defs load_def canLoad_def newPromise_def dependencyUrlAnalyzed_def
      hasDeferredFile_def)

text \<open>
  C2, amended. In every state an analyzer can reach, a request for a loadable url that is
  not in the file store, whose path \<^verbatim>\<open>pathFromResolvedUrl\<close> returns, and that is not a
  source asked for after the sources stream has completed, does not fail, whether or not
  the url has an entry: the promise returned is new and pending, its callbacks are stored
  under the url in place of the entry the url had, and the table holds exactly this one
  entry for the url. The promise of the entry the url had, if it had one, is another
  promise; it was pending, it stays pending, and it is in the table no more: it is dropped
  without being settled.
\<close>

theorem load_replaces_registration:
  assumes "st = run env (initial F) evs" and "canLoad env u" and "files st u = None"
    and "pathFromResolvedUrl env u = Inr fp" and "\<not> (isSource env fp \<and> sourceFilesLoaded st)"
  shows "snd (load env st u) = nextPromise st \<and>
         promises (fst (load env st u)) (nextPromise st) = Pending \<and>
         deferredFiles (fst (load env st u)) = AList.update u (nextPromise st) (deferredFiles st) \<and>
         filter (\<lambda>e. fst e = u) (deferredFiles (fst (load env st u))) = [(u, nextPromise st)] \<and>
         (\<forall>q. map_of (deferredFiles st) u = Some q \<longrightarrow>
            q \<noteq> nextPromise st \<and> promises st q = Pending \<and>
            promises (fst (load env st u)) q = Pending \<and>
            q \<notin> snd ` set (deferredFiles (fst (load env st u))))"
proof -
  have t: "pendingTable st"
    unfolding assms(1) by (rule run_pendingTable [OF initial_pendingTable])
  then have d: "distinct (map fst (deferredFiles st))"
    by (simp add: pendingTable_def)
  have l: "load env st u =
      ((if isSource env fp then newPromise st Pending
        else (newPromise st Pending)\<lparr>dependenciesStream := dependenciesStream st @ [fp]\<rparr>)
         \<lparr>deferredFiles := AList.update u (nextPromise st) (deferredFiles st)\<rparr>, nextPromise st)"
    using assms(2-5)
    by (auto simp: load_def Let_def sourceUrlAnalyzed_def dependencyUrlAnalyzed_def newPromise_def)
  have old: "q \<noteq> nextPromise st \<and> promises st q = Pending \<and>
      q \<notin> snd ` set (AList.update u (nextPromise st) (deferredFiles st))"
    if "map_of (deferredFiles st) u = Some q" for q
  proof -
    from that have m: "(u, q) \<in> set (deferredFiles st)" by (rule map_of_SomeD)
    with t have a: "q < nextPromise st" "promises st q = Pending"
      by (auto simp: pendingTable_def)
    have "snd e \<noteq> q" if "e \<in> set (AList.update u (nextPromise st) (deferredFiles st))" for e
    proof (cases "e = (u, nextPromise st)")
      case True
      with a show ?thesis by simp
    next
      case False
      with that set_update [OF d, of u "nextPromise st"]
      have "e \<in> set (deferredFiles st)" "fst e \<noteq> u" by auto
      with t m show ?thesis
        by (intro snd_unique [of "deferredFiles st" u q e]) (simp_all add: pendingTable_def)
    qed
    with a show ?thesis by auto
  qed
  show ?thesis
    unfolding l using d old by (simp add: newPromise_def filter_update_key)
qed

theorem load_replaces_registration_witness:
  "canLoad exampleEnv styleUrl \<and>
   files (run exampleEnv (initial {indexUrl}) [Load styleUrl]) styleUrl = None \<and>
   pathFromResolvedUrl exampleEnv styleUrl = Inr ''/proj/style.css'' \<and>
   \<not> isSource exampleEnv ''/proj/style.css'' \<and>
   deferredFiles (run exampleEnv (initial {indexUrl}) [Load styleUrl]) = [(styleUrl, 0)] \<and>
   map_of (deferredFiles (run exampleEnv (initial {indexUrl}) [Load styleUrl])) styleUrl = Some 0 \<and>
   filter (\<lambda>e. fst e = styleUrl)
     (deferredFiles (fst (load exampleEnv (run exampleEnv (initial {indexUrl}) [Load styleUrl])
        styleUrl))) = [(styleUrl, 1)] \<and>
   promises (fst (load exampleEnv (run exampleEnv (initial {indexUrl}) [Load styleUrl]) styleUrl)) 0
     = Pending \<and>
   0 \<notin> snd ` set (deferredFiles
      (fst (load exampleEnv (run exampleEnv (initial {indexUrl}) [Load styleUrl]) styleUrl)))"
proof -
  have a: "canLoad exampleEnv styleUrl" by (simp add: canLoad_def example_defs)
  have s: "run exampleEnv (initial {indexUrl}) [Load styleUrl] =
     (initial {indexUrl})\<lparr>promises := (\<lambda>p. Pending), nextPromise := 1,
        deferredFiles := [(styleUrl, 0)], dependenciesStream := [''/proj/style.css'']\<rparr>"
    by (simp add: example_defs load_def canLoad_def newPromise_def dependencyUrlAnalyzed_def
        fun_upd_def)
  have b: "files (run exampleEnv (initial {indexUrl}) [Load styleUrl]) styleUrl = None"
    unfolding s by (simp add: example_defs)
  have c: "pathFromResolvedUrl exampleEnv styleUrl = Inr ''/proj/style.css''"
    by (simp add: example_defs)
  have i: "\<not> isSource exampleEnv ''/proj/style.css''"
    by (simp add: example_defs)
  then have d: "\<not> (isSource exampleEnv ''/proj/style.css'' \<and>
      sourceFilesLoaded (run exampleEnv (initial {indexUrl}) [Load styleUrl]))"
    by simp
  have e: "nextPromise (run exampleEnv (initial {indexUrl}) [Load styleUrl]) = 1"
    and f: "deferredFiles (run exampleEnv (initial {indexUrl}) [Load styleUrl]) = [(styleUrl, 0)]"
    unfolding s by simp_all
  from f have g: "map_of (deferredFiles (run exampleEnv (initial {indexUrl}) [Load styleUrl]))
      styleUrl = Some 0"
    by simp
  from load_replaces_registration [OF refl a b c d] g
  have "filter (\<lambda>e. fst e = styleUrl)
     (deferredFiles (fst (load exampleEnv (run exampleEnv (initial {indexUrl}) [Load styleUrl])
        styleUrl))) = [(styleUrl, nextPromise (run exampleEnv (initial {indexUrl}) [Load styleUrl]))]"
    and "promises (fst (load exampleEnv (run exampleEnv (initial {indexUrl}) [Load styleUrl])
        styleUrl)) 0 = Pending"
    and "0 \<notin> snd ` set (deferredFiles
      (fst (load exampleEnv (run exampleEnv (initial {indexUrl}) [Load styleUrl]) styleUrl)))"
    by blast+
  with a b c i e f g show ?thesis by (simp del: run.simps)
qed

text \<open>
  C3, as stated: a second arrival of a url through the resolve stage leaves the stored
  file unchanged. It does not: after \<^verbatim>\<open>shared.html\<close> has arrived with the text
  \<^verbatim>\<open>old\<close> and then with the text \<^verbatim>\<open>new\<close>, the file store holds the second file.
\<close>

theorem second_arrival_counterexample:
  "files (run exampleEnv (initial {indexUrl}) [ResolveFile sharedFileOld]) sharedUrl
     = Some sharedFileOld \<and>
   files (run exampleEnv (initial {indexUrl}) [ResolveFile sharedFileOld, ResolveFile sharedFileNew])
     sharedUrl = Some sharedFileNew \<and>
   contents sharedFileNew \<noteq> contents sharedFileOld"
  by (simp add: example_defs resolveFile_def addFile_def hasDeferredFile_def Let_def)

text \<open>
  C3, amended. The file store is a map, so a url has one file at most at any time. A file
  whose path is inside the root passes the resolve stage, and afterwards the file store
  holds this file under its url, whatever it held there before, and is unchanged at every
  other url: a second arrival overwrites.
\<close>

theorem resolveFile_stores_arriving_file:
  assumes "fileUrl env (path f) = Inr u'" and "fileUrl env (normalize env (path f)) = Inr u"
  shows "\<exists>st'. resolveFile env st f = Inr st' \<and> files st' = (files st)(u \<mapsto> f)"
  using assms
  by (auto simp: resolveFile_def addFile_def Let_def hasDeferredFile_def resolveDeferredFile_def)

theorem resolveFile_stores_arriving_file_witness:
  "fileUrl exampleEnv (path sharedFileNew) = Inr sharedUrl \<and>
   fileUrl exampleEnv (normalize exampleEnv (path sharedFileNew)) = Inr sharedUrl \<and>
   files (state_of (resolveFile exampleEnv
      (run exampleEnv (initial {indexUrl}) [ResolveFile sharedFileOld]) sharedFileNew)) sharedUrl
     = Some sharedFileNew"
proof -
  have a: "fileUrl exampleEnv (path sharedFileNew) = Inr sharedUrl"
    by (simp add: example_defs)
  have b: "fileUrl exampleEnv (normalize exampleEnv (path sharedFileNew)) = Inr sharedUrl"
    by (simp add: example_defs)
  from resolveFile_stores_arriving_file [OF a b,
      of "run exampleEnv (initial {indexUrl}) [ResolveFile sharedFileOld]"] a b
  show ?thesis by auto
qed

text \<open>
  C6. After the sources stream has completed, a request for a loadable url that is a
  source and is not in the file store is rejected at once with \<^verbatim>\<open>Not found\<close> naming the
  url; the url has no entry in the table of deferred files afterwards, and nothing is
  pushed into the dependencies stream.
\<close>

theorem late_source_request_rejected:
  assumes "onSourcesStreamComplete env st0 = Inr st1" and "st = run env st1 evs"
    and "canLoad env u" and "files st u = None"
    and "pathFromResolvedUrl env u = Inr fp" and "isSource env fp"
  shows "promises (fst (load env st u)) (snd (load env st u)) = Rejected (NotFoundQuoted u) \<and>
         \<not> hasDeferredFile (fst (load env st u)) u \<and>
         dependenciesStream (fst (load env st u)) = dependenciesStream st"
proof -
  have "sourceFilesLoaded st"
    unfolding assms(2)
    by (rule run_sourceFilesLoaded [OF onSourcesStreamComplete_sets_flag [OF assms(1)]])
  with assms(3-6) show ?thesis
    by (simp add: load_def Let_def sourceUrlAnalyzed_def newPromise_def rejectDeferredFile_def
        update_conv' settle_def hasDeferredFile_def delete_conv')
qed

theorem late_source_request_rejected_witness:
  "onSourcesStreamComplete exampleEnv (initial {indexUrl})
     = Inr ((initial {indexUrl})\<lparr>sourceFilesLoaded := True\<rparr>) \<and>
   canLoad exampleEnv sharedUrl \<and>
   files (run exampleEnv ((initial {indexUrl})\<lparr>sourceFilesLoaded := True\<rparr>) []) sharedUrl = None \<and>
   pathFromResolvedUrl exampleEnv sharedUrl = Inr ''/proj/shared.html'' \<and>
   isSource exampleEnv ''/proj/shared.html'' \<and>
   promises (fst (load exampleEnv ((initial {indexUrl})\<lparr>sourceFilesLoaded := True\<rparr>) sharedUrl))
     (snd (load exampleEnv ((initial {indexUrl})\<lparr>sourceFilesLoaded := True\<rparr>) sharedUrl))
     = Rejected (NotFoundQuoted sharedUrl) \<and>
   \<not> hasDeferredFile
       (fst (load exampleEnv ((initial {indexUrl})\<lparr>sourceFilesLoaded := True\<rparr>) sharedUrl)) sharedUrl"
proof -
  have a: "onSourcesStreamComplete exampleEnv (initial {indexUrl})
     = Inr ((initial {indexUrl})\<lparr>sourceFilesLoaded := True\<rparr>)"
    by (simp add: onSourcesStreamComplete_def initial_def)
  have b: "canLoad exampleEnv sharedUrl" by (simp add: canLoad_def example_defs)
  have c: "files (run exampleEnv ((initial {indexUrl})\<lparr>sourceFilesLoaded := True\<rparr>) []) sharedUrl
     = None"
    by (simp add: initial_def)
  have d: "pathFromResolvedUrl exampleEnv sharedUrl = Inr ''/proj/shared.html''"
    by (simp add: example_defs)
  have e: "isSource exampleEnv ''/proj/shared.html''" by (simp add: example_defs)
  from late_source_request_rejected [OF a refl b c d e] a b c d e
  show ?thesis by simp
qed

text \<open>
  C7. The claim: a url requested twice is pushed into the dependencies stream once at
  most. The code pushes it twice when the second request comes before the file is in the
  file store: \<^verbatim>\<open>dependencyUrlAnalyzed\<close> looks at the file store only.
\<close>

theorem second_request_pushes_again:
  "dependenciesStream (run exampleEnv (initial {indexUrl}) [Load styleUrl, Load styleUrl])
     = [''/proj/style.css'', ''/proj/style.css'']"
  by (simp add: example_defs load_def canLoad_def newPromise_def dependencyUrlAnalyzed_def)

section \<open>Completion\<close>

text \<open>
  C4. The claim: when analysis completes without error warnings and \<open>n\<close> urls are still
  deferred, each of them is rejected with \<^verbatim>\<open>Not found\<close>. The code rejects the first only.
  With \<^verbatim>\<open>style.css\<close> and \<^verbatim>\<open>app.js\<close> deferred when the last fragment is analyzed, the
  promise of \<^verbatim>\<open>style.css\<close> is rejected, and the promise of \<^verbatim>\<open>app.js\<close> stays pending
  and deferred.
\<close>

theorem done_rejects_first_pending_only:
  "deferredFiles (run exampleEnv (initial {indexUrl}) [Load styleUrl, Load scriptUrl])
     = [(styleUrl, 0), (scriptUrl, 1)] \<and>
   promises (run exampleEnv (initial {indexUrl})
      [Load styleUrl, Load scriptUrl, AnalyzeFile indexFile (Successful [] [])]) 0
     = Rejected (NotFound styleUrl) \<and>
   promises (run exampleEnv (initial {indexUrl})
      [Load styleUrl, Load scriptUrl, AnalyzeFile indexFile (Successful [] [])]) 1
     = Pending \<and>
   deferredFiles (run exampleEnv (initial {indexUrl})
      [Load styleUrl, Load scriptUrl, AnalyzeFile indexFile (Successful [] [])])
     = [(scriptUrl, 1)]"
  by (simp add: example_defs load_def canLoad_def newPromise_def dependencyUrlAnalyzed_def
      analyzeFile_def BuildAnalyzer_getDependencies_def
      updateIndex_def BuildAnalyzer_addDependencies_def addEntrypoint_def BuildAnalyzer_done_def
      countWarningsByType_def positive_def count_of_def rejectDeferredFile_def settle_def)

text \<open>
  C5. When the index update of the last fragment empties the set of fragments to analyze
  and \<open>n > 0\<close> of the accumulated warnings have severity \<^verbatim>\<open>ERROR\<close>, the update returns
  after emitting the same error, which carries \<open>n\<close>, on the sources stream and on the
  dependencies stream, and the analysis promise is not resolved then nor by anything that
  happens later.
\<close>

theorem completion_fails_on_error_warnings:
  assumes "allFragmentsToAnalyze st = {u}" and "\<not> analysisResolved st"
    and "n = length (filter (\<lambda>w. severity w = ERROR) (warnings st))" and "0 < n"
  shows "\<exists>st'. updateIndex st u deps = Inr st' \<and>
           sourcesErrors st' = sourcesErrors st @ [ErrorsOccurred n] \<and>
           dependenciesErrors st' = dependenciesErrors st @ [ErrorsOccurred n] \<and>
           \<not> analysisResolved st' \<and>
           (\<forall>env evs. \<not> analysisResolved (run env st' evs))"
proof -
  define st3 where
    "st3 = st\<lparr>fragmentToFullDeps := (fragmentToFullDeps st)(u \<mapsto> deps),
              fragmentToDeps := (fragmentToDeps st)(u \<mapsto> imports' deps),
              depsToFragments := foldl addEntrypoint (depsToFragments st) (imports' deps),
              allFragmentsToAnalyze := {}\<rparr>"
  define st' where "st' = emitAnalysisError st3 (ErrorsOccurred n)"
  have w: "warnings st3 = warnings st" by (simp add: st3_def)
  have d: "BuildAnalyzer_done st3 = Inr st'"
    using assms(3,4) by (simp add: BuildAnalyzer_done_def Let_def count_ERROR w positive_def
        count_of_def st'_def)
  have "updateIndex st u deps = Inr st'"
    using assms(1) d by (simp add: updateIndex_def BuildAnalyzer_addDependencies_def st3_def)
  moreover have "sourcesErrors st' = sourcesErrors st @ [ErrorsOccurred n]"
    and "dependenciesErrors st' = dependenciesErrors st @ [ErrorsOccurred n]"
    by (simp_all add: st'_def st3_def emitAnalysisError_def)
  moreover have e: "allFragmentsToAnalyze st' = {}" and r: "\<not> analysisResolved st'"
    using assms(2) by (simp_all add: st'_def st3_def emitAnalysisError_def)
  moreover have "\<not> analysisResolved (run env st' evs)" for env evs
    using run_keeps_unresolved [OF e r] .
  ultimately show ?thesis by blast
qed

theorem completion_fails_on_error_warnings_witness:
  "allFragmentsToAnalyze stateWithError = {indexUrl} \<and>
   \<not> analysisResolved stateWithError \<and>
   length (filter (\<lambda>w. severity w = ERROR) (warnings stateWithError)) = 1 \<and>
   sourcesErrors (state_of (updateIndex stateWithError indexUrl noDeps)) = [ErrorsOccurred 1] \<and>
   dependenciesErrors (state_of (updateIndex stateWithError indexUrl noDeps))
     = [ErrorsOccurred 1] \<and>
   \<not> analysisResolved
       (run exampleEnv (state_of (updateIndex stateWithError indexUrl noDeps))
          [SourcesStreamComplete, Load styleUrl])"
proof -
  have a: "allFragmentsToAnalyze stateWithError = {indexUrl}"
    and b: "\<not> analysisResolved stateWithError"
    and s: "sourcesErrors stateWithError = []" "dependenciesErrors stateWithError = []"
    by (simp_all add: stateWithError_def initial_def)
  have c: "1 = length (filter (\<lambda>w. severity w = ERROR) (warnings stateWithError))"
    by (simp add: stateWithError_def exampleWarnings_def)
  from completion_fails_on_error_warnings [OF a b c, of noDeps]
  obtain st' where "updateIndex stateWithError indexUrl noDeps = Inr st'"
    and "sourcesErrors st' = sourcesErrors stateWithError @ [ErrorsOccurred 1]"
    and "dependenciesErrors st' = dependenciesErrors stateWithError @ [ErrorsOccurred 1]"
    and r: "\<forall>env evs. \<not> analysisResolved (run env st' evs)"
    by auto
  moreover from r
  have "\<not> analysisResolved (run exampleEnv st' [SourcesStreamComplete, Load styleUrl])"
    by blast
  ultimately show ?thesis
    using a b c s by (simp del: run.simps)
qed

text \<open>
  C10. The tally of \<^verbatim>\<open>countWarningsByType\<close> has a number for each of \<^verbatim>\<open>INFO\<close>,
  \<^verbatim>\<open>WARNING\<close> and \<^verbatim>\<open>ERROR\<close>, zero for no warnings, so the lookup of the \<^verbatim>\<open>ERROR\<close>
  count in \<^verbatim>\<open>_done\<close> finds a number; and when every warning has one of the three
  severities, the three counts add up to the number of warnings.
\<close>

theorem tally_has_all_severities:
  "countWarningsByType [] INFO = Some (Num 0) \<and>
   countWarningsByType [] WARNING = Some (Num 0) \<and>
   countWarningsByType [] ERROR = Some (Num 0) \<and>
   (\<exists>i w e. countWarningsByType ws INFO = Some (Num i) \<and>
      countWarningsByType ws WARNING = Some (Num w) \<and>
      countWarningsByType ws ERROR = Some (Num e) \<and>
      ((\<forall>x\<in>set ws. severity x = INFO \<or> severity x = WARNING \<or> severity x = ERROR) \<longrightarrow>
         i + w + e = length ws))"
  by (simp add: count_ERROR count_WARNING count_INFO three_way_count)

theorem tally_has_all_severities_witness:
  "set (map severity exampleWarnings) \<subseteq> {INFO, WARNING, ERROR} \<and>
   count_of (countWarningsByType exampleWarnings INFO)
     + count_of (countWarningsByType exampleWarnings WARNING)
     + count_of (countWarningsByType exampleWarnings ERROR) = 2"
proof -
  have h: "\<forall>x\<in>set exampleWarnings. severity x = INFO \<or> severity x = WARNING \<or> severity x = ERROR"
    by (simp add: exampleWarnings_def)
  have l: "length exampleWarnings = 2"
    by (simp add: exampleWarnings_def)
  from tally_has_all_severities [of exampleWarnings] h l
  obtain i w e where "countWarningsByType exampleWarnings INFO = Some (Num i)"
    and "countWarningsByType exampleWarnings WARNING = Some (Num w)"
    and "countWarningsByType exampleWarnings ERROR = Some (Num e)"
    and "i + w + e = 2"
    by auto
  moreover have "set (map severity exampleWarnings) \<subseteq> {INFO, WARNING, ERROR}"
    by (simp add: exampleWarnings_def)
  ultimately show ?thesis by (simp add: count_of_def)
qed

section \<open>The canonical resolver: decoding undoes encoding\<close>

lemma hexDigit_table: "list_all (\<lambda>n. hexValue (hexDigit n) = Some n) [0..<16]"
  by code_simp

lemma hexValue_hexDigit: "n < 16 \<Longrightarrow> hexValue (hexDigit n) = Some n"
  using hexDigit_table by (simp add: list_all_iff)

lemma percentDecode_other:
  "c \<noteq> CHR ''%'' \<Longrightarrow> percentDecode (c # cs) = c # percentDecode cs"
proof (cases cs)
  case Nil
  then show ?thesis by simp
next
  case (Cons h t)
  assume "c \<noteq> CHR ''%''"
  with Cons show ?thesis by (cases t) simp_all
qed

lemma percentDecode_encodeChar:
  "percentDecode (encodeChar c @ cs) = c # percentDecode cs"
proof (cases "unreserved c")
  case True
  then have "c \<noteq> CHR ''%''" by (auto simp: unreserved_def)
  with True show ?thesis by (simp add: encodeChar_def percentDecode_other)
next
  case False
  have n: "(of_char c :: nat) < 256" by simp
  then have "(of_char c :: nat) div 16 < 16" "(of_char c :: nat) mod 16 < 16"
    by arith+
  with False show ?thesis
    by (simp add: encodeChar_def hexValue_hexDigit)
qed

lemma percentDecode_percentEncode: "percentDecode (percentEncode s) = s"
  by (induction s) (simp_all add: percentEncode_def percentDecode_encodeChar)

section \<open>The canonical resolver: segments\<close>

lemma splitSlash_nonempty: "splitSlash s \<noteq> []"
  by (induction s) (auto split: list.splits)

lemma splitSlash_append:
  "splitSlash (a @ CHR ''/'' # b) = splitSlash a @ splitSlash b"
proof (induction a)
  case Nil
  show ?case by simp
next
  case (Cons c a)
  then show ?case
    using splitSlash_nonempty [of a] by (auto split: list.splits)
qed

lemma splitSlash_chars:
  "seg \<in> set (splitSlash s) \<Longrightarrow> set seg \<subseteq> set s - {CHR ''/''}"
proof (induction s arbitrary: seg)
  case Nil
  then show ?case by simp
next
  case (Cons c s)
  then show ?case
    by (fastforce split: if_splits list.splits)
qed

lemma splitSlash_no_slash: "CHR ''/'' \<notin> set s \<Longrightarrow> splitSlash s = [s]"
  by (induction s) auto

lemma splitSlash_joinSlash:
  "segs \<noteq> [] \<Longrightarrow> \<forall>seg\<in>set segs. CHR ''/'' \<notin> set seg \<Longrightarrow> splitSlash (joinSlash segs) = segs"
proof (induction segs rule: joinSlash.induct)
  case 1
  then show ?case by simp
next
  case (2 s)
  then show ?case by (simp add: splitSlash_no_slash)
next
  case (3 s t ss)
  then show ?case by (simp add: splitSlash_append splitSlash_no_slash)
qed

lemma normStep_plain: "plainSegment seg \<Longrightarrow> normStep a acc seg = acc @ [seg]"
  by (simp add: normStep_def plainSegment_def)

lemma foldl_normStep_plain:
  "\<forall>seg\<in>set segs. plainSegment seg \<Longrightarrow> foldl (normStep a) acc segs = acc @ segs"
  by (induction segs arbitrary: acc) (simp_all add: normStep_plain)

lemma set_normStep: "set (normStep a acc x) \<subseteq> set acc \<union> {x}"
  by (auto simp: normStep_def dest: in_set_butlastD)

text \<open>
  Normalisation leaves no empty segment and no dot, and what holds of the segments it is
  given holds of the segments it returns.
\<close>

lemma normStep_keeps:
  assumes "\<forall>y\<in>set acc. y \<noteq> [] \<and> y \<noteq> ''.'' \<and> P y" and "P x"
  shows "\<forall>y\<in>set (normStep a acc x). y \<noteq> [] \<and> y \<noteq> ''.'' \<and> P y"
proof
  fix y assume y: "y \<in> set (normStep a acc x)"
  show "y \<noteq> [] \<and> y \<noteq> ''.'' \<and> P y"
  proof (cases "x = [] \<or> x = ''.''")
    case True
    with y assms show ?thesis by (auto simp: normStep_def)
  next
    case False
    from y set_normStep [of a acc x] have "y \<in> set acc \<or> y = x" by auto
    with False assms show ?thesis by auto
  qed
qed

lemma foldl_normStep_result:
  assumes "\<forall>x\<in>set acc. x \<noteq> [] \<and> x \<noteq> ''.'' \<and> P x" and "\<forall>seg\<in>set segs. P seg"
  shows "\<forall>seg\<in>set (foldl (normStep a) acc segs). seg \<noteq> [] \<and> seg \<noteq> ''.'' \<and> P seg"
  using assms
proof (induction segs arbitrary: acc)
  case Nil
  then show ?case by simp
next
  case (Cons x xs)
  have p: "P x" and ps: "\<forall>seg\<in>set xs. P seg"
    using Cons.prems(2) by simp_all
  have k: "\<forall>y\<in>set (normStep a acc x). y \<noteq> [] \<and> y \<noteq> ''.'' \<and> P y"
    by (rule normStep_keeps [OF Cons.prems(1) p])
  have "foldl (normStep a) acc (x # xs) = foldl (normStep a) (normStep a acc x) xs"
    by simp
  then show ?case
    using Cons.IH [OF k ps] by (simp only:)
qed

lemma normalizeSegments_result:
  assumes "\<forall>seg\<in>set segs. P seg"
  shows "\<forall>seg\<in>set (normalizeSegments a segs). seg \<noteq> [] \<and> seg \<noteq> ''.'' \<and> P seg"
proof -
  have "\<forall>x\<in>set ([] :: string list). x \<noteq> [] \<and> x \<noteq> ''.'' \<and> P x"
    by simp
  from foldl_normStep_result [OF this assms] show ?thesis
    by (simp only: normalizeSegments_def)
qed

lemma posixify_platformify:
  "pathSeparator pf = CHR ''/'' \<or> pathSeparator pf \<notin> set s \<Longrightarrow>
   posixifyPath pf (platformifyPath pf s) = s"
  by (induction s) (auto simp: posixifyPath_def platformifyPath_def)

lemma posixifyPath_no_separator:
  "pathSeparator pf = CHR ''/'' \<or> pathSeparator pf \<notin> set (posixifyPath pf s)"
  by (auto simp: posixifyPath_def)

lemma posixifyPath_append:
  "posixifyPath pf (a @ b) = posixifyPath pf a @ posixifyPath pf b"
  by (simp add: posixifyPath_def)

lemma posixifyPath_separator: "posixifyPath pf [pathSeparator pf] = ''/''"
  by (simp add: posixifyPath_def)

lemma posixifyPath_dot: "posixifyPath pf ''.'' = ''.''"
  by (cases pf) (simp_all add: posixifyPath_def pathSeparator_def)

lemma set_joinSlash: "set (joinSlash segs) \<subseteq> (\<Union>seg\<in>set segs. set seg) \<union> {CHR ''/''}"
  by (induction segs rule: joinSlash.induct) auto

lemma normalize_rejoined:
  assumes "\<forall>seg\<in>set rest. plainSegment seg \<and> CHR ''/'' \<notin> set seg"
  shows "foldl (normStep a) acc (splitSlash (joinSlash rest)) = acc @ rest"
proof (cases "rest = []")
  case True
  then show ?thesis by (simp add: normStep_def)
next
  case False
  with assms have "splitSlash (joinSlash rest) = rest"
    by (simp add: splitSlash_joinSlash)
  with assms show ?thesis by (simp add: foldl_normStep_plain)
qed

section \<open>The canonical resolver: drives\<close>

lemma driveOf_pathBody: "driveOf pf s @ pathBody pf s = s"
  by (auto simp: pathBody_def driveOf_def split: Platform.splits list.splits)

lemma length_driveOf: "length (driveOf pf s) \<le> length s"
  by (auto simp: driveOf_def split: Platform.splits list.splits)

lemma driveOf_no_letter: "\<not> isLetter c \<Longrightarrow> driveOf pf (c # t) = []"
  by (auto simp: driveOf_def split: Platform.splits list.splits)

lemma not_isLetter: "\<not> isLetter CHR ''.''" "\<not> isLetter CHR ''/''"
  by (simp_all add: isLetter_def)

lemma driveOf_two: "driveOf pf (x # y # s @ t) = driveOf pf (x # y # s)"
  by (simp add: driveOf_def split: Platform.splits)

lemma driveOf_one: "c \<noteq> CHR '':'' \<Longrightarrow> driveOf pf (x # c # t) = driveOf pf [x]"
  by (simp add: driveOf_def split: Platform.splits)

lemma isUNC_two: "isUNC pf (x # y # s @ t) = isUNC pf (x # y # s)"
  by (simp add: isUNC_def split: Platform.splits)

lemma isUNC_first: "x \<noteq> CHR ''/'' \<Longrightarrow> \<not> isUNC pf (x # t)"
  by (cases t) (simp_all add: isUNC_def split: Platform.splits)

lemma isUNC_second: "y \<noteq> CHR ''/'' \<Longrightarrow> \<not> isUNC pf (x # y # t)"
  by (simp add: isUNC_def split: Platform.splits)

lemma isUNC_short: "\<not> isUNC pf []" "\<not> isUNC pf [x]"
  by (simp_all add: isUNC_def split: Platform.splits)

lemma pathBody_append:
  "driveOf pf (s @ t) = driveOf pf s \<Longrightarrow> pathBody pf (s @ t) = pathBody pf s @ t"
  using length_driveOf [of pf s] by (simp add: pathBody_def)

lemma joinSlash_head:
  "\<forall>seg\<in>set rest. plainSegment seg \<and> CHR ''/'' \<notin> set seg \<Longrightarrow>
   joinSlash rest = [] \<or> (\<exists>c cs. joinSlash rest = c # cs \<and> c \<noteq> CHR ''/'')"
proof (induction rest rule: joinSlash.induct)
  case 1
  show ?case by simp
next
  case (2 s)
  then show ?case by (cases s) (auto simp: plainSegment_def)
next
  case (3 s t ss)
  then show ?case by (cases s) (auto simp: plainSegment_def)
qed

text \<open>
  What \<open>pathFromUrl\<close> puts after the root \<open>s\<close>, written with \<^verbatim>\<open>/\<close>, for the relative
  path \<open>j\<close>, changes neither the drive nor whether the path names a share.
\<close>

lemma joined_drive:
  assumes "t = (if pathBody pf s = [] then CHR ''.'' # CHR ''/'' # j
                else if last s = CHR ''/'' then j else CHR ''/'' # j)"
    and "j = [] \<or> (\<exists>c cs. j = c # cs \<and> c \<noteq> CHR ''/'')"
    and "\<not> isUNC pf s"
  shows "driveOf pf (s @ t) = driveOf pf s" and "\<not> isUNC pf (s @ t)"
proof -
  have "driveOf pf (s @ t) = driveOf pf s \<and> \<not> isUNC pf (s @ t)"
  proof (cases s)
    case Nil
    then have "pathBody pf s = []" by (simp add: pathBody_def)
    with Nil assms(1) show ?thesis
      by (simp add: driveOf_no_letter not_isLetter isUNC_first driveOf_def
          split: Platform.splits)
  next
    case (Cons x xs)
    show ?thesis
    proof (cases xs)
      case (Cons y ys)
      with \<open>s = x # xs\<close> assms(3) show ?thesis
        by (simp add: driveOf_two isUNC_two)
    next
      case Nil
      with \<open>s = x # xs\<close> have s: "s = [x]" by simp
      then have b: "pathBody pf s = [x]" by (simp add: pathBody_def driveOf_def split: Platform.splits)
      show ?thesis
      proof (cases "x = CHR ''/''")
        case True
        with s b assms(1) have "t = j" by simp
        with s True assms(2) show ?thesis
          by (auto simp: driveOf_no_letter not_isLetter isUNC_second isUNC_short)
      next
        case False
        with s b assms(1) have "t = CHR ''/'' # j" by simp
        with s False show ?thesis
          by (simp add: driveOf_one isUNC_first)
      qed
    qed
  qed
  then show "driveOf pf (s @ t) = driveOf pf s" and "\<not> isUNC pf (s @ t)" by simp_all
qed

lemma normalize_trailing_slash:
  "normalizeSegments a (splitSlash (b @ ''/'')) = normalizeSegments a (splitSlash b)"
  using splitSlash_append [of b "[]"] by (simp add: normalizeSegments_def normStep_def)

lemma joined_segments:
  assumes "t = (if b = [] then CHR ''.'' # CHR ''/'' # joinSlash rest
                else if last b = CHR ''/'' then joinSlash rest else CHR ''/'' # joinSlash rest)"
    and "\<forall>seg\<in>set rest. plainSegment seg \<and> CHR ''/'' \<notin> set seg"
  shows "isAbsolute (b @ t) = isAbsolute b"
    and "normalizeSegments a (splitSlash (b @ t)) = normalizeSegments a (splitSlash b) @ rest"
proof -
  show "isAbsolute (b @ t) = isAbsolute b"
    using assms(1) by (cases b) (simp_all add: isAbsolute_def)
  show "normalizeSegments a (splitSlash (b @ t)) = normalizeSegments a (splitSlash b) @ rest"
  proof (cases "b = []")
    case True
    with assms(1) have "splitSlash (b @ t) = ''.'' # splitSlash (joinSlash rest)"
      using splitSlash_append [of "''.''" "joinSlash rest"] by simp
    with True normalize_rejoined [OF assms(2), of a "[]"] show ?thesis
      by (simp add: normalizeSegments_def normStep_def)
  next
    case ne: False
    show ?thesis
    proof (cases "last b = CHR ''/''")
      case True
      with ne have b: "b = butlast b @ ''/''" by (metis append_butlast_last_id)
      from ne True assms(1) have "b @ t = butlast b @ CHR ''/'' # joinSlash rest"
        using b by (metis append.assoc append_Cons append_Nil)
      then have "splitSlash (b @ t) = splitSlash (butlast b) @ splitSlash (joinSlash rest)"
        by (simp add: splitSlash_append)
      with normalize_rejoined [OF assms(2), of a "foldl (normStep a) [] (splitSlash (butlast b))"]
      have "normalizeSegments a (splitSlash (b @ t))
          = normalizeSegments a (splitSlash (butlast b)) @ rest"
        by (simp add: normalizeSegments_def)
      also have "normalizeSegments a (splitSlash (butlast b)) = normalizeSegments a (splitSlash b)"
        using normalize_trailing_slash [of a "butlast b"] b by simp
      finally show ?thesis .
    next
      case False
      with ne assms(1) have "splitSlash (b @ t) = splitSlash b @ splitSlash (joinSlash rest)"
        by (simp add: splitSlash_append)
      with normalize_rejoined [OF assms(2), of a "foldl (normStep a) [] (splitSlash b)"]
      show ?thesis by (simp add: normalizeSegments_def)
    qed
  qed
qed

lemma last_pathBody: "pathBody pf s \<noteq> [] \<Longrightarrow> last (pathBody pf s) = last s"
  by (simp add: pathBody_def last_drop)

section \<open>The canonical resolver: the way back\<close>

text \<open>
  A path that resolves lies below the root: it has the drive of the root, it is absolute
  when the root is, and its normal segments are those of the root and then plain segments,
  which the identifier encodes.
\<close>

lemma resolved_below_root:
  assumes "urlFromPath pf root p = Inr u"
  shows "\<exists>rest. (\<forall>seg\<in>set rest. plainSegment seg \<and> CHR ''/'' \<notin> set seg \<and>
              (pathSeparator pf = CHR ''/'' \<or> pathSeparator pf \<notin> set seg)) \<and>
           driveOf pf (posixifyPath pf p) = driveOf pf (posixifyPath pf root) \<and>
           isAbsolute (pathBody pf (posixifyPath pf p))
             = isAbsolute (pathBody pf (posixifyPath pf root)) \<and>
           pathSegments pf (posixifyPath pf p) = pathSegments pf (posixifyPath pf root) @ rest \<and>
           u = percentEncode (joinSlash rest)"
proof -
  define rs where "rs = pathSegments pf (posixifyPath pf root)"
  define ts where "ts = pathSegments pf (posixifyPath pf p)"
  define rest where "rest = drop (length rs) ts"
  from assms have c: "containedInRoot pf root p"
    by (auto simp: urlFromPath_def split: if_splits)
  with assms have u: "u = percentEncode (joinSlash rest)"
    by (simp add: urlFromPath_def Let_def rs_def ts_def rest_def)
  from c have t: "take (length rs) ts = rs" and dd: "''..'' \<notin> set rest"
    and dr: "driveOf pf (posixifyPath pf p) = driveOf pf (posixifyPath pf root)"
    and ab: "isAbsolute (pathBody pf (posixifyPath pf p))
             = isAbsolute (pathBody pf (posixifyPath pf root))"
    by (simp_all add: containedInRoot_def Let_def rs_def ts_def rest_def)
  from t have ts: "ts = rs @ rest"
    unfolding rest_def by (metis append_take_drop_id)
  have "set (pathBody pf (posixifyPath pf p)) \<subseteq> set (posixifyPath pf p)"
    by (simp add: pathBody_def set_drop_subset)
  then have "\<forall>seg\<in>set (splitSlash (pathBody pf (posixifyPath pf p))).
          CHR ''/'' \<notin> set seg \<and> (pathSeparator pf = CHR ''/'' \<or> pathSeparator pf \<notin> set seg)"
    using splitSlash_chars [of _ "pathBody pf (posixifyPath pf p)"]
      posixifyPath_no_separator [of pf p] by blast
  from normalizeSegments_result [OF this]
  have "\<forall>seg\<in>set ts. seg \<noteq> [] \<and> seg \<noteq> ''.'' \<and> CHR ''/'' \<notin> set seg \<and>
      (pathSeparator pf = CHR ''/'' \<or> pathSeparator pf \<notin> set seg)"
    by (simp only: ts_def pathSegments_def)
  with dd have "\<forall>seg\<in>set rest. plainSegment seg \<and> CHR ''/'' \<notin> set seg \<and>
      (pathSeparator pf = CHR ''/'' \<or> pathSeparator pf \<notin> set seg)"
    unfolding ts by (auto simp: plainSegment_def)
  with dr ab ts u show ?thesis
    unfolding rs_def ts_def by blast
qed

text \<open>
  C9. For an identifier that resolving a path gave, the path that \<open>pathFromUrl\<close> returns
  resolves to the same identifier: percent-encoding and the normalisation of separators
  are undone and redone exactly. Resolving fails for every path that is not contained in
  the root, and a path that resolves lies below the root: its normal segments are those of
  the root and then plain segments, none of them \<^verbatim>\<open>..\<close>.
\<close>

theorem pathFromUrl_right_inverse:
  "(urlFromPath pf root p = Inr u \<longrightarrow> urlFromPath pf root (pathFromUrl pf root u) = Inr u) \<and>
   (\<not> containedInRoot pf root p \<longrightarrow> urlFromPath pf root p = Inl (NotInRoot p)) \<and>
   (urlFromPath pf root p = Inr u \<longrightarrow>
      (\<exists>rest. (\<forall>seg\<in>set rest. plainSegment seg) \<and>
         driveOf pf (posixifyPath pf p) = driveOf pf (posixifyPath pf root) \<and>
         isAbsolute (pathBody pf (posixifyPath pf p))
           = isAbsolute (pathBody pf (posixifyPath pf root)) \<and>
         pathSegments pf (posixifyPath pf p) = pathSegments pf (posixifyPath pf root) @ rest \<and>
         u = percentEncode (joinSlash rest)))"
proof (intro conjI impI)
  assume "\<not> containedInRoot pf root p"
  then show "urlFromPath pf root p = Inl (NotInRoot p)"
    by (simp add: urlFromPath_def)
next
  assume "urlFromPath pf root p = Inr u"
  from resolved_below_root [OF this]
  show "\<exists>rest. (\<forall>seg\<in>set rest. plainSegment seg) \<and>
         driveOf pf (posixifyPath pf p) = driveOf pf (posixifyPath pf root) \<and>
         isAbsolute (pathBody pf (posixifyPath pf p))
           = isAbsolute (pathBody pf (posixifyPath pf root)) \<and>
         pathSegments pf (posixifyPath pf p) = pathSegments pf (posixifyPath pf root) @ rest \<and>
         u = percentEncode (joinSlash rest)"
    by blast
next
  assume r: "urlFromPath pf root p = Inr u"
  define s where "s = posixifyPath pf root"
  define rs where "rs = pathSegments pf s"
  from r have c: "containedInRoot pf root p"
    by (auto simp: urlFromPath_def split: if_splits)
  from resolved_below_root [OF r] obtain rest
    where restA: "\<forall>seg\<in>set rest. plainSegment seg \<and> CHR ''/'' \<notin> set seg \<and>
              (pathSeparator pf = CHR ''/'' \<or> pathSeparator pf \<notin> set seg)"
      and u: "u = percentEncode (joinSlash rest)"
    by blast
  from restA have restP: "\<forall>seg\<in>set rest. plainSegment seg \<and> CHR ''/'' \<notin> set seg"
    and restS: "\<forall>seg\<in>set rest. pathSeparator pf = CHR ''/'' \<or> pathSeparator pf \<notin> set seg"
    and dd: "''..'' \<notin> set rest"
    by (auto simp: plainSegment_def)
  have "pathSeparator pf = CHR ''/'' \<or> pathSeparator pf \<notin> set (joinSlash rest)"
    using restS set_joinSlash [of rest] by auto
  then have pp: "posixifyPath pf (platformifyPath pf (joinSlash rest)) = joinSlash rest"
    by (rule posixify_platformify)
  define t where
    "t = (if pathBody pf s = [] then CHR ''.'' # CHR ''/'' # joinSlash rest
          else if last s = CHR ''/'' then joinSlash rest else CHR ''/'' # joinSlash rest)"
  define q where "q = pathFromUrl pf root u"
  have "posixifyPath pf (root @ CHR ''.'' # pathSeparator pf # platformifyPath pf (joinSlash rest))
      = s @ CHR ''.'' # CHR ''/'' # joinSlash rest"
    and "posixifyPath pf (root @ platformifyPath pf (joinSlash rest)) = s @ joinSlash rest"
    and "posixifyPath pf (root @ pathSeparator pf # platformifyPath pf (joinSlash rest))
      = s @ CHR ''/'' # joinSlash rest"
    using pp posixifyPath_dot [of pf] posixifyPath_separator [of pf]
    by (simp_all add: posixifyPath_def s_def)
  then have q: "posixifyPath pf q = s @ t"
    by (simp add: q_def pathFromUrl_def Let_def u percentDecode_percentEncode
        s_def [symmetric] t_def)
  from c have nu: "\<not> isUNC pf s"
    by (simp add: containedInRoot_def Let_def s_def)
  have d: "driveOf pf (s @ t) = driveOf pf s" and nq: "\<not> isUNC pf (s @ t)"
    using joined_drive [OF t_def joinSlash_head [OF restP] nu] by simp_all
  from d have b: "pathBody pf (s @ t) = pathBody pf s @ t"
    by (rule pathBody_append)
  have t': "t = (if pathBody pf s = [] then CHR ''.'' # CHR ''/'' # joinSlash rest
          else if last (pathBody pf s) = CHR ''/'' then joinSlash rest
          else CHR ''/'' # joinSlash rest)"
    using last_pathBody [of pf s] by (simp add: t_def)
  have a: "isAbsolute (pathBody pf s @ t) = isAbsolute (pathBody pf s)"
    and n: "pathSegments pf (s @ t) = rs @ rest"
    using joined_segments [OF t' restP] b by (simp_all add: pathSegments_def rs_def)
  have "containedInRoot pf root q"
    using d a b n dd nu nq
    by (simp add: containedInRoot_def Let_def q s_def [symmetric] rs_def [symmetric])
  then have "urlFromPath pf root q = Inr u"
    using n by (simp add: urlFromPath_def Let_def q s_def [symmetric] rs_def [symmetric] u)
  then show "urlFromPath pf root (pathFromUrl pf root u) = Inr u"
    by (simp add: q_def)
qed

theorem pathFromUrl_right_inverse_witness:
  "urlFromPath Posix testRoot (testRoot @ ''/spaced out'') = Inr ''spaced%20out'' \<and>
   pathFromUrl Posix testRoot ''spaced%20out'' = testRoot @ ''/spaced out'' \<and>
   urlFromPath Posix testRoot (pathFromUrl Posix testRoot ''spaced%20out'') = Inr ''spaced%20out'' \<and>
   urlFromPath Windows windowsRoot windowsTarget = Inr ''s/a%20b'' \<and>
   urlFromPath Windows windowsRoot (pathFromUrl Windows windowsRoot ''s/a%20b'') = Inr ''s/a%20b'' \<and>
   \<not> containedInRoot Posix ''/the/path'' ''/the/pathologist/index.html'' \<and>
   urlFromPath Posix ''/the/path'' ''/the/pathologist/index.html''
     = Inl (NotInRoot ''/the/pathologist/index.html'') \<and>
   \<not> containedInRoot Posix ''a'' ''../a/x'' \<and>
   urlFromPath Posix ''a'' ''../a/x'' = Inl (NotInRoot ''../a/x'') \<and>
   \<not> containedInRoot Posix ''.'' ''../../etc/passwd'' \<and>
   urlFromPath Posix ''.'' ''../../etc/passwd'' = Inl (NotInRoot ''../../etc/passwd'') \<and>
   \<not> containedInRoot Windows driveRoot shareTarget \<and>
   urlFromPath Windows driveRoot shareTarget = Inl (NotInRoot shareTarget)"
proof -
  have a: "urlFromPath Posix testRoot (testRoot @ ''/spaced out'') = Inr ''spaced%20out''"
    by code_simp
  have b: "pathFromUrl Posix testRoot ''spaced%20out'' = testRoot @ ''/spaced out''"
    by code_simp
  have c: "urlFromPath Windows windowsRoot windowsTarget = Inr ''s/a%20b''"
    by code_simp
  have d: "\<not> containedInRoot Posix ''/the/path'' ''/the/pathologist/index.html''"
    by code_simp
  have d2: "\<not> containedInRoot Posix ''a'' ''../a/x''"
    by code_simp
  have d3: "\<not> containedInRoot Posix ''.'' ''../../etc/passwd''"
    by code_simp
  from pathFromUrl_right_inverse [of Posix testRoot "testRoot @ ''/spaced out''" "''spaced%20out''"] a
  have e: "urlFromPath Posix testRoot (pathFromUrl Posix testRoot ''spaced%20out'')
      = Inr ''spaced%20out''"
    by simp
  from pathFromUrl_right_inverse [of Windows windowsRoot windowsTarget "''s/a%20b''"] c
  have f: "urlFromPath Windows windowsRoot (pathFromUrl Windows windowsRoot ''s/a%20b'') = Inr ''s/a%20b''"
    by simp
  from pathFromUrl_right_inverse [of Posix "''/the/path''" "''/the/pathologist/index.html''"] d
  have g: "urlFromPath Posix ''/the/path'' ''/the/pathologist/index.html''
      = Inl (NotInRoot ''/the/pathologist/index.html'')"
    by simp
  from pathFromUrl_right_inverse [of Posix "''a''" "''../a/x''"] d2
  have g2: "urlFromPath Posix ''a'' ''../a/x'' = Inl (NotInRoot ''../a/x'')"
    by simp
  from pathFromUrl_right_inverse [of Posix "''.''" "''../../etc/passwd''"] d3
  have g3: "urlFromPath Posix ''.'' ''../../etc/passwd'' = Inl (NotInRoot ''../../etc/passwd'')"
    by simp
  have d4: "\<not> containedInRoot Windows driveRoot shareTarget"
    by code_simp
  from pathFromUrl_right_inverse [of Windows driveRoot shareTarget] d4
  have g4: "urlFromPath Windows driveRoot shareTarget = Inl (NotInRoot shareTarget)"
    by simp
  from a b c d e f g d2 g2 d3 g3 d4 g4 show ?thesis by simp
qed

end
